theory Spec2Isabelle
  imports Main "HOL-Library.Word"
begin

section \<open>JavaScript values\<close>

text \<open>
  A JavaScript string is a sequence of UTF-16 code units. String literals of the source
  are ASCII and are written through \<open>js\<close>.
\<close>

type_synonym jsstring = "16 word list"

definition js :: "string \<Rightarrow> jsstring" where
  "js s = map (\<lambda>c. of_nat (of_char c)) s"

text \<open>The exceptions that the host and the built-ins used by the script can throw.\<close>

datatype error = TypeError | SyntaxError | SecurityError | URIError

subsection \<open>Ordinary objects with string keys\<close>

text \<open>
  \<open>getRulesImpactingNode\<close> uses an object literal \<open>{}\<close> as a set of strings.
  An object is kept as its own properties in creation order. Two rules of the language
  are written out:
  \<^item> own keys are enumerated with the array indices first, in ascending numeric order,
    followed by the other string keys in creation order;
  \<^item> assigning a primitive to the key \<open>__proto__\<close> of such an object runs the
    inherited setter, which ignores values that are not objects: no property is created.
\<close>

type_synonym js_object = "(jsstring \<times> bool) list"

definition is_digit :: "16 word \<Rightarrow> bool" where
  "is_digit c \<longleftrightarrow> 0x30 \<le> c \<and> c \<le> 0x39"

definition decimal_value :: "jsstring \<Rightarrow> nat" where
  "decimal_value k = foldl (\<lambda>a c. 10 * a + (unat c - 48)) 0 k"

definition is_array_index :: "jsstring \<Rightarrow> bool" where
  "is_array_index k \<longleftrightarrow>
     k \<noteq> [] \<and> list_all is_digit k \<and> (if hd k = 0x30 then length k = 1 else True) \<and>
     decimal_value k < 2 ^ 32 - 1"

definition Object_keys :: "js_object \<Rightarrow> jsstring list" where
  "Object_keys obj =
     (let ks = map fst obj
      in sort_key decimal_value (filter is_array_index ks) @
         filter (\<lambda>k. \<not> is_array_index k) ks)"

definition object_set :: "js_object \<Rightarrow> jsstring \<Rightarrow> bool \<Rightarrow> js_object" where
  "object_set obj k v =
     (if k = js ''__proto__'' then obj
      else if k \<in> set (map fst obj)
      then map (\<lambda>(k', v'). if k' = k then (k', v) else (k', v')) obj
      else obj @ [(k, v)])"

definition object_copy :: "js_object \<Rightarrow> js_object \<Rightarrow> js_object" where
  "object_copy target source =
     foldl (\<lambda>t k. case map_of source k of Some v \<Rightarrow> object_set t k v | None \<Rightarrow> t)
       target (Object_keys source)"

definition Object_assign :: "js_object \<Rightarrow> js_object list \<Rightarrow> js_object" where
  "Object_assign target sources = foldl object_copy target sources"

section \<open>The host's object model\<close>

subsection \<open>Style sheets\<close>

text \<open>
  A rule exposes \<open>cssText\<close>, possibly \<open>selectorText\<close> and possibly a nested rule
  list \<open>cssRules\<close>; \<open>None\<close> is the property being absent (\<open>undefined\<close>).
  Reading \<open>cssRules\<close> or \<open>rules\<close> of a style sheet runs a getter of the host, which
  yields a rule list, yields nothing (\<open>null\<close> or \<open>undefined\<close>), or throws.
\<close>

datatype cssrule =
  CSSRule (selectorText: "jsstring option") (cssText: jsstring) (cssRules: "cssrule list option")

datatype stylesheet =
  CSSStyleSheet (sheet_cssRules: "error + cssrule list option")
                (sheet_rules: "error + cssrule list option")

subsection \<open>The node tree\<close>

text \<open>
  Nodes are objects with identity: every node carries its reference. The live document
  is one tree; nodes that are not attached to it form further trees.
\<close>

type_synonym ref = nat

datatype node_type = ELEMENT_NODE | TEXT_NODE | DOCUMENT_NODE

datatype node = Node (ident: ref) (nodeType: node_type) (childNodes: "node list")

fun descendants :: "node \<Rightarrow> node list" where
  "descendants (Node r t cs) = concat (map (\<lambda>c. c # descendants c) cs)"

fun refs :: "node \<Rightarrow> ref list" where
  "refs (Node r t cs) = r # concat (map refs cs)"

definition forest_refs :: "node list \<Rightarrow> ref list" where
  "forest_refs ns = concat (map refs ns)"

fun find_node :: "ref \<Rightarrow> node \<Rightarrow> node option"
  and find_in :: "ref \<Rightarrow> node list \<Rightarrow> node option" where
  "find_node x (Node r t cs) = (if r = x then Some (Node r t cs) else find_in x cs)"
| "find_in x [] = None"
| "find_in x (n # ns) = (case find_node x n of Some m \<Rightarrow> Some m | None \<Rightarrow> find_in x ns)"

fun parent_node :: "ref \<Rightarrow> node \<Rightarrow> ref option"
  and parent_in :: "ref \<Rightarrow> node list \<Rightarrow> ref option" where
  "parent_node x (Node r t cs) = (if x \<in> set (map ident cs) then Some r else parent_in x cs)"
| "parent_in x [] = None"
| "parent_in x (n # ns) = (case parent_node x n of Some p \<Rightarrow> Some p | None \<Rightarrow> parent_in x ns)"

subsection \<open>Frames, timers and the observable effects\<close>

record frame_box =
  scrollHeight :: int
  offsetHeight :: int
  clientHeight :: int

record frame_document =
  documentElement :: "frame_box option"
  body :: "frame_box option"

text \<open>The only closure the script hands to \<open>setTimeout\<close> captures the frame.\<close>

datatype callback = MeasureHeight ref

datatype event =
  CreateElement ref
| SetProperty ref string jsstring
| ReplaceChild ref ref ref
| SetTimeout callback nat

text \<open>
  The mutable world: the trees, the style sheets of the document, the properties of the
  elements (those the host reflects, and the own properties that an assignment to an
  unknown name creates on the object), the pending timers, and the log of effects in the
  order in which they happened.
\<close>

record state =
  document :: node
  detached :: "node list"
  styleSheets :: "stylesheet list"
  reflected :: "ref \<Rightarrow> string \<rightharpoonup> jsstring"
  expandos :: "ref \<Rightarrow> string \<rightharpoonup> jsstring"
  timers :: "(callback \<times> nat) list"
  trace :: "event list"

definition forest :: "state \<Rightarrow> node list" where
  "forest st = document st # detached st"

text \<open>
  What the script asks of the host and cannot compute itself: selector matching
  (\<open>matches\<close> receives what the script passes, also an absent selector, and may throw),
  markup serialisation (\<open>None\<close> where the object has no \<open>innerHTML\<close>), whether frame
  elements have a \<open>srcdoc\<close> property, and the rendered document of a frame.
\<close>

record host =
  matches :: "ref \<Rightarrow> jsstring option \<Rightarrow> error + bool"
  innerHTML :: "ref \<Rightarrow> jsstring option"
  srcdoc_supported :: bool
  contentWindow_document :: "ref \<Rightarrow> error + frame_document"

text \<open>
  \<open>rootNode.querySelectorAll('*')\<close>: the element descendants in tree order. Text nodes
  and values that are no node at all have no such method, and the call throws.
\<close>

definition querySelectorAll_all :: "state \<Rightarrow> ref \<Rightarrow> error + ref list" where
  "querySelectorAll_all st r =
     (case find_in r (forest st) of
        None \<Rightarrow> Inl TypeError
      | Some n \<Rightarrow>
          if nodeType n = TEXT_NODE then Inl TypeError
          else Inr (map ident (filter (\<lambda>d. nodeType d = ELEMENT_NODE) (descendants n))))"

definition parentNode :: "state \<Rightarrow> ref \<Rightarrow> ref option" where
  "parentNode st r = parent_in r (forest st)"

text \<open>
  The children of a node and the siblings of a node, as \<open>childNodes\<close>,
  \<open>previousSibling\<close> and \<open>nextSibling\<close> report them.
\<close>

definition children_of :: "state \<Rightarrow> ref \<Rightarrow> ref list" where
  "children_of st r = (case find_in r (forest st) of None \<Rightarrow> [] | Some n \<Rightarrow> map ident (childNodes n))"

fun before_in :: "ref \<Rightarrow> ref list \<Rightarrow> ref option" where
  "before_in x (a # b # cs) =
     (if a = x then None else if b = x then Some a else before_in x (b # cs))"
| "before_in x cs = None"

fun after_in :: "ref \<Rightarrow> ref list \<Rightarrow> ref option" where
  "after_in x (a # b # cs) = (if a = x then Some b else after_in x (b # cs))"
| "after_in x cs = None"

definition previousSibling :: "state \<Rightarrow> ref \<Rightarrow> ref option" where
  "previousSibling st r =
     (case parentNode st r of None \<Rightarrow> None | Some p \<Rightarrow> before_in r (children_of st p))"

definition nextSibling :: "state \<Rightarrow> ref \<Rightarrow> ref option" where
  "nextSibling st r =
     (case parentNode st r of None \<Rightarrow> None | Some p \<Rightarrow> after_in r (children_of st p))"

text \<open>\<open>document.createElement\<close>: a new element, with a reference not in use, in no tree.\<close>

definition fresh_ref :: "state \<Rightarrow> ref" where
  "fresh_ref st = Suc (fold max (forest_refs (forest st)) 0)"

definition createElement :: "state \<Rightarrow> ref \<times> state" where
  "createElement st =
     (let r = fresh_ref st
      in (r, st\<lparr>detached := detached st @ [Node r ELEMENT_NODE []],
                reflected := (reflected st)(r := Map.empty),
                expandos := (expandos st)(r := Map.empty),
                trace := trace st @ [CreateElement r]\<rparr>))"

text \<open>
  Properties of a frame element. The host reflects \<open>src\<close> and \<open>height\<close>, and
  \<open>srcdoc\<close> where it supports it. An assignment to a name that the element does not
  have creates an own property of the object; \<open>name in element\<close> holds for the names the
  host provides and for the own properties. The script uses no other names.
\<close>

definition reflects :: "host \<Rightarrow> string \<Rightarrow> bool" where
  "reflects h name \<longleftrightarrow>
     name = ''src'' \<or> name = ''height'' \<or> (name = ''srcdoc'' \<and> srcdoc_supported h)"

definition set_property :: "host \<Rightarrow> state \<Rightarrow> ref \<Rightarrow> string \<Rightarrow> jsstring \<Rightarrow> state" where
  "set_property h st r name v =
     (if reflects h name
      then st\<lparr>reflected := (reflected st)(r := (reflected st r)(name \<mapsto> v)),
              trace := trace st @ [SetProperty r name v]\<rparr>
      else st\<lparr>expandos := (expandos st)(r := (expandos st r)(name \<mapsto> v)),
              trace := trace st @ [SetProperty r name v]\<rparr>)"

definition get_property :: "host \<Rightarrow> state \<Rightarrow> ref \<Rightarrow> string \<Rightarrow> jsstring option" where
  "get_property h st r name = (if reflects h name then reflected st r name else expandos st r name)"

definition has_property :: "host \<Rightarrow> state \<Rightarrow> ref \<Rightarrow> string \<Rightarrow> bool" where
  "has_property h st r name \<longleftrightarrow> reflects h name \<or> expandos st r name \<noteq> None"

text \<open>
  \<open>parent.replaceChild(new, old)\<close> for a \<open>new\<close> that is the root of a tree outside the
  document, as the element just created is: \<open>new\<close> takes the place of \<open>old\<close> among the
  children of \<open>parent\<close>, and \<open>old\<close> with its subtree becomes a tree of its own.
\<close>

fun replace_in :: "ref \<Rightarrow> node \<Rightarrow> ref \<Rightarrow> node \<Rightarrow> node" where
  "replace_in p new old (Node r t cs) =
     (if r = p then Node r t (map (\<lambda>c. if ident c = old then new else c) cs)
      else Node r t (map (replace_in p new old) cs))"

definition replaceChild :: "state \<Rightarrow> ref \<Rightarrow> ref \<Rightarrow> ref \<Rightarrow> state" where
  "replaceChild st parent new old =
     (case find_in new (forest st) of
        None \<Rightarrow> st
      | Some n \<Rightarrow>
          (case find_in old (forest st) of
             None \<Rightarrow> st
           | Some oldn \<Rightarrow>
               st\<lparr>document := replace_in parent n old (document st),
                  detached :=
                    map (replace_in parent n old) (filter (\<lambda>t. ident t \<noteq> new) (detached st)) @
                    [oldn],
                  trace := trace st @ [ReplaceChild parent new old]\<rparr>))"

definition setTimeout :: "state \<Rightarrow> callback \<Rightarrow> nat \<Rightarrow> state" where
  "setTimeout st cb delay =
     st\<lparr>timers := timers st @ [(cb, delay)], trace := trace st @ [SetTimeout cb delay]\<rparr>"

subsection \<open>Built-in functions\<close>

text \<open>
  \<open>encodeURI\<close>: the characters of the unescaped set stay; any other code point is written
  as the escaped octets of its UTF-8 form; a surrogate without its partner is a
  \<open>URIError\<close>.
\<close>

definition uri_unescaped :: "16 word \<Rightarrow> bool" where
  "uri_unescaped c \<longleftrightarrow>
     (let n = unat c
      in (0x41 \<le> n \<and> n \<le> 0x5A) \<or> (0x61 \<le> n \<and> n \<le> 0x7A) \<or> (0x30 \<le> n \<and> n \<le> 0x39) \<or>
         c \<in> set (js '';/?:@&=+$,-_.!~*()#'') \<or> n = 0x27)"

definition is_leading_surrogate :: "16 word \<Rightarrow> bool" where
  "is_leading_surrogate c \<longleftrightarrow> 0xD800 \<le> unat c \<and> unat c \<le> 0xDBFF"

definition is_trailing_surrogate :: "16 word \<Rightarrow> bool" where
  "is_trailing_surrogate c \<longleftrightarrow> 0xDC00 \<le> unat c \<and> unat c \<le> 0xDFFF"

definition code_point :: "16 word \<Rightarrow> 16 word \<Rightarrow> nat" where
  "code_point lead trail = 0x10000 + (unat lead - 0xD800) * 0x400 + (unat trail - 0xDC00)"

definition utf8_octets :: "nat \<Rightarrow> nat list" where
  "utf8_octets cp =
     (if cp < 0x80 then [cp]
      else if cp < 0x800 then [0xC0 + cp div 0x40, 0x80 + cp mod 0x40]
      else if cp < 0x10000
      then [0xE0 + cp div 0x1000, 0x80 + cp div 0x40 mod 0x40, 0x80 + cp mod 0x40]
      else [0xF0 + cp div 0x40000, 0x80 + cp div 0x1000 mod 0x40,
            0x80 + cp div 0x40 mod 0x40, 0x80 + cp mod 0x40])"

definition hex_digit :: "nat \<Rightarrow> 16 word" where
  "hex_digit n = (if n < 10 then of_nat (0x30 + n) else of_nat (0x41 + (n - 10)))"

definition escape_octet :: "nat \<Rightarrow> jsstring" where
  "escape_octet b = [0x25, hex_digit (b div 16), hex_digit (b mod 16)]"

definition escape_octets :: "nat list \<Rightarrow> jsstring" where
  "escape_octets bs = concat (map escape_octet bs)"

fun Encode :: "jsstring \<Rightarrow> error + jsstring" where
  "Encode [] = Inr []"
| "Encode (c # cs) =
     (if uri_unescaped c
      then (case Encode cs of Inl e \<Rightarrow> Inl e | Inr r \<Rightarrow> Inr (c # r))
      else if is_trailing_surrogate c then Inl URIError
      else if is_leading_surrogate c
      then (case cs of
              [] \<Rightarrow> Inl URIError
            | d # ds \<Rightarrow>
                if is_trailing_surrogate d
                then (case Encode ds of
                        Inl e \<Rightarrow> Inl e
                      | Inr r \<Rightarrow> Inr (escape_octets (utf8_octets (code_point c d)) @ r))
                else Inl URIError)
      else (case Encode cs of
              Inl e \<Rightarrow> Inl e
            | Inr r \<Rightarrow> Inr (escape_octets (utf8_octets (unat c)) @ r)))"

definition encodeURI :: "jsstring \<Rightarrow> error + jsstring" where
  "encodeURI uri = Encode uri"

text \<open>\<open>Math.max\<close> of the five integers, and the conversion of an integer to a string.\<close>

definition Math_max :: "int \<Rightarrow> int \<Rightarrow> int \<Rightarrow> int \<Rightarrow> int \<Rightarrow> int" where
  "Math_max a b c d e = max a (max b (max c (max d e)))"

fun decimal_digits :: "nat \<Rightarrow> jsstring" where
  "decimal_digits n =
     (if n < 10 then [of_nat (0x30 + n)] else decimal_digits (n div 10) @ [of_nat (0x30 + n mod 10)])"

declare decimal_digits.simps [simp del]

definition number_to_string :: "int \<Rightarrow> jsstring" where
  "number_to_string i = (if i < 0 then 0x2D # decimal_digits (nat (- i)) else decimal_digits (nat i))"

section \<open>The script\<close>

subsection \<open>shouldAddRule\<close>

text \<open>The \<open>for\<close> loop over the nested rules of a group rule.\<close>

fun shouldAddRule_loop :: "host \<Rightarrow> ref \<Rightarrow> cssrule list \<Rightarrow> error + bool" where
  "shouldAddRule_loop h node [] = Inr False"
| "shouldAddRule_loop h node (r # rs) =
     (case matches h node (selectorText r) of
        Inl e \<Rightarrow> Inl e
      | Inr b \<Rightarrow> if b then Inr True else shouldAddRule_loop h node rs)"

definition shouldAddRule :: "host \<Rightarrow> ref \<Rightarrow> cssrule \<Rightarrow> error + bool" where
  "shouldAddRule h node cssRule =
     (case cssRules cssRule of
        Some nested \<Rightarrow> shouldAddRule_loop h node nested
      | None \<Rightarrow> matches h node (selectorText cssRule))"

subsection \<open>getRulesImpactingNode\<close>

text \<open>The inner loop, over the rules of one style sheet.\<close>

fun rules_loop :: "host \<Rightarrow> ref \<Rightarrow> cssrule list \<Rightarrow> js_object \<Rightarrow> error + js_object" where
  "rules_loop h node [] object = Inr object"
| "rules_loop h node (r # rs) object =
     (case shouldAddRule h node r of
        Inl e \<Rightarrow> Inl e
      | Inr b \<Rightarrow> rules_loop h node rs (if b then object_set object (cssText r) True else object))"

text \<open>\<open>stylesheets[i].cssRules || stylesheets[i].rules\<close>: a rule list is truthy.\<close>

definition sheet_rule_list :: "stylesheet \<Rightarrow> error + cssrule list option" where
  "sheet_rule_list s =
     (case sheet_cssRules s of
        Inl e \<Rightarrow> Inl e
      | Inr (Some l) \<Rightarrow> Inr (Some l)
      | Inr None \<Rightarrow> sheet_rules s)"

text \<open>The outer loop, over the style sheets of the document.\<close>

fun sheets_loop :: "host \<Rightarrow> ref \<Rightarrow> stylesheet list \<Rightarrow> js_object \<Rightarrow> error + js_object" where
  "sheets_loop h node [] object = Inr object"
| "sheets_loop h node (s # ss) object =
     (case sheet_rule_list s of
        Inl e \<Rightarrow> Inl e
      | Inr None \<Rightarrow> sheets_loop h node ss object
      | Inr (Some l) \<Rightarrow>
          (case rules_loop h node l object of
             Inl e \<Rightarrow> Inl e
           | Inr object' \<Rightarrow> sheets_loop h node ss object'))"

definition getRulesImpactingNode :: "host \<Rightarrow> state \<Rightarrow> ref \<Rightarrow> error + js_object" where
  "getRulesImpactingNode h st node = sheets_loop h node (styleSheets st) []"

subsection \<open>getStylesForTree\<close>

text \<open>\<open>Array.prototype.reduce\<close> with a callback that may throw.\<close>

fun reduce :: "('b \<Rightarrow> 'a \<Rightarrow> error + 'b) \<Rightarrow> 'a list \<Rightarrow> 'b \<Rightarrow> error + 'b" where
  "reduce f [] acc = Inr acc"
| "reduce f (x # xs) acc =
     (case f acc x of Inl e \<Rightarrow> Inl e | Inr acc' \<Rightarrow> reduce f xs acc')"

definition getStylesForTree :: "host \<Rightarrow> state \<Rightarrow> ref \<Rightarrow> error + jsstring" where
  "getStylesForTree h st rootNode =
     (case querySelectorAll_all st rootNode of
        Inl e \<Rightarrow> Inl e
      | Inr children \<Rightarrow>
          (case getRulesImpactingNode h st rootNode of
             Inl e \<Rightarrow> Inl e
           | Inr initial \<Rightarrow>
               (case reduce (\<lambda>tree child.
                        case getRulesImpactingNode h st child of
                          Inl e \<Rightarrow> Inl e
                        | Inr impacting \<Rightarrow> Inr (Object_assign [] [tree, impacting]))
                      children initial of
                  Inl e \<Rightarrow> Inl e
                | Inr rules \<Rightarrow> Inr (concat (Object_keys rules)))))"

subsection \<open>getIframeContentForNode\<close>

text \<open>String concatenation converts \<open>undefined\<close> to the text \<open>undefined\<close>.\<close>

definition ToString :: "jsstring option \<Rightarrow> jsstring" where
  "ToString v = (case v of None \<Rightarrow> js ''undefined'' | Some s \<Rightarrow> s)"

definition getIframeContentForNode :: "host \<Rightarrow> state \<Rightarrow> ref \<Rightarrow> error + jsstring" where
  "getIframeContentForNode h st node =
     (case getStylesForTree h st node of
        Inl e \<Rightarrow> Inl e
      | Inr styles \<Rightarrow>
          Inr (js ''<!doctype html>''
             @ js ''<html lang=\"en\">''
             @ js ''<head>''
             @ js ''<style>'' @ styles @ js ''</style>''
             @ js ''</head>''
             @ js ''<body>'' @ ToString (innerHTML h node) @ js ''</body>''
             @ js ''</html>''))"

subsection \<open>iframify\<close>

text \<open>
  The result is the state reached and either the exception that ended the call or
  \<open>Inr ()\<close>. Effects that happened before an exception stay.
\<close>

definition iframify :: "host \<Rightarrow> state \<Rightarrow> ref \<Rightarrow> (error + unit) \<times> state" where
  "iframify h st node =
     (case createElement st of
        (iframe, st1) \<Rightarrow>
          (case getIframeContentForNode h st1 node of
             Inl e \<Rightarrow> (Inl e, st1)
           | Inr html \<Rightarrow>
               (let st2 = set_property h st1 iframe ''srcdoc'' html
                in case encodeURI html of
                     Inl e \<Rightarrow> (Inl e, st2)
                   | Inr encoded \<Rightarrow>
                       (let st3 = set_property h st2 iframe ''src''
                                    (js ''data:text/html;charset=utf-8,'' @ encoded)
                        in case parentNode st3 node of
                             None \<Rightarrow> (Inl TypeError, st3)
                           | Some parent \<Rightarrow>
                               (let st4 = replaceChild st3 parent iframe node
                                in if has_property h st4 iframe ''srcdoc''
                                   then (Inr (), setTimeout st4 (MeasureHeight iframe) 500)
                                   else (Inr (), st4))))))"

text \<open>
  The function handed to \<open>setTimeout\<close>, run by the host when the timer is due, on the
  state and with the answers of the host at that time.
\<close>

fun run_callback :: "host \<Rightarrow> state \<Rightarrow> callback \<Rightarrow> (error + unit) \<times> state" where
  "run_callback h st (MeasureHeight iframe) =
     (case contentWindow_document h iframe of
        Inl e \<Rightarrow> (Inl e, st)
      | Inr doc \<Rightarrow>
          (case body doc of
             None \<Rightarrow> (Inl TypeError, st)
           | Some b \<Rightarrow>
               (case documentElement doc of
                  None \<Rightarrow> (Inl TypeError, st)
                | Some html \<Rightarrow>
                    (Inr (),
                     set_property h st iframe ''height''
                       (number_to_string
                          (Math_max (scrollHeight b) (offsetHeight b)
                             (clientHeight html) (scrollHeight html) (offsetHeight html)) @
                        js ''px'')))))"

text \<open>The host runs the timer that is due first; a timer runs once.\<close>

definition run_timer :: "host \<Rightarrow> state \<Rightarrow> (error + unit) \<times> state" where
  "run_timer h st =
     (case timers st of
        [] \<Rightarrow> (Inr (), st)
      | (cb, delay) # rest \<Rightarrow> run_callback h (st\<lparr>timers := rest\<rparr>) cb)"

section \<open>What the collection is meant to compute\<close>

text \<open>
  The walk in the words of the specification: the candidate nodes are the root followed
  by its element descendants in tree order; for each of them every style sheet with a
  readable rule list is scanned in order, and every top-level rule in order; the texts
  of the relevant rules are kept at their first occurrence.
\<close>

definition candidates :: "node \<Rightarrow> ref list" where
  "candidates n = ident n # map ident (filter (\<lambda>d. nodeType d = ELEMENT_NODE) (descendants n))"

definition top_rules :: "stylesheet list \<Rightarrow> cssrule list" where
  "top_rules sheets =
     concat (map (\<lambda>s. case sheet_rule_list s of Inr (Some l) \<Rightarrow> l | _ \<Rightarrow> []) sheets)"

definition relevant_texts :: "host \<Rightarrow> cssrule list \<Rightarrow> ref \<Rightarrow> jsstring list" where
  "relevant_texts h rules node =
     map cssText (filter (\<lambda>r. shouldAddRule h node r = Inr True) rules)"

definition discovered :: "host \<Rightarrow> stylesheet list \<Rightarrow> ref list \<Rightarrow> jsstring list" where
  "discovered h sheets nodes = concat (map (relevant_texts h (top_rules sheets)) nodes)"

definition first_occurrences :: "'a list \<Rightarrow> 'a list" where
  "first_occurrences xs = rev (remdups (rev xs))"

text \<open>
  Keys that an object enumerates in creation order. The text of a serialised rule
  contains an opening brace or starts with an at sign, and is such a key.
\<close>

definition plain_key :: "jsstring \<Rightarrow> bool" where
  "plain_key k \<longleftrightarrow> \<not> is_array_index k \<and> k \<noteq> js ''__proto__''"

definition css_rule_text :: "jsstring \<Rightarrow> bool" where
  "css_rule_text t \<longleftrightarrow> 0x7B \<in> set t \<or> (case t of [] \<Rightarrow> False | c # _ \<Rightarrow> c = 0x40)"

text \<open>A style sheet whose rule list reads as absent, without an exception.\<close>

definition no_rule_list :: "stylesheet \<Rightarrow> bool" where
  "no_rule_list s \<longleftrightarrow> sheet_rule_list s = Inr None"

section \<open>Percent-decoding\<close>

text \<open>
  The inverse that the specification asks of the data URI: every \<open>%XX\<close> is read as an
  octet, other characters stand for themselves, and the octets are read as UTF-8
  (shortest form only, no surrogates, at most U+10FFFF) and written as UTF-16.
\<close>

datatype token = Unit "16 word" | Octet nat

definition hex_value :: "16 word \<Rightarrow> nat option" where
  "hex_value c =
     (let n = unat c
      in if 0x30 \<le> n \<and> n \<le> 0x39 then Some (n - 0x30)
         else if 0x41 \<le> n \<and> n \<le> 0x46 then Some (n - 0x41 + 10)
         else if 0x61 \<le> n \<and> n \<le> 0x66 then Some (n - 0x61 + 10)
         else None)"

fun unescape :: "jsstring \<Rightarrow> token list option" where
  "unescape [] = Some []"
| "unescape (c # cs) =
     (if c = 0x25
      then (case cs of
              h # l # rest \<Rightarrow>
                (case hex_value h of
                   None \<Rightarrow> None
                 | Some a \<Rightarrow>
                     (case hex_value l of
                        None \<Rightarrow> None
                      | Some b \<Rightarrow> map_option ((#) (Octet (16 * a + b))) (unescape rest)))
            | _ \<Rightarrow> None)
      else map_option ((#) (Unit c)) (unescape cs))"

definition continuation :: "token \<Rightarrow> nat option" where
  "continuation t =
     (case t of
        Octet b \<Rightarrow> if 0x80 \<le> b \<and> b < 0xC0 then Some (b - 0x80) else None
      | Unit c \<Rightarrow> None)"

definition utf16_units :: "nat \<Rightarrow> jsstring" where
  "utf16_units cp =
     (if cp < 0x10000 then [of_nat cp]
      else [of_nat (0xD800 + (cp - 0x10000) div 0x400), of_nat (0xDC00 + (cp - 0x10000) mod 0x400)])"

fun decode_utf8 :: "token list \<Rightarrow> jsstring option" where
  "decode_utf8 [] = Some []"
| "decode_utf8 (Unit c # ts) = map_option ((#) c) (decode_utf8 ts)"
| "decode_utf8 (Octet b # ts) =
     (if b < 0x80 then map_option ((#) (of_nat b)) (decode_utf8 ts)
      else if 0xC0 \<le> b \<and> b < 0xE0
      then (case ts of
              t1 # r \<Rightarrow>
                (case continuation t1 of
                   None \<Rightarrow> None
                 | Some x1 \<Rightarrow>
                     (let cp = (b - 0xC0) * 0x40 + x1
                      in if 0x80 \<le> cp then map_option ((@) (utf16_units cp)) (decode_utf8 r)
                         else None))
            | _ \<Rightarrow> None)
      else if 0xE0 \<le> b \<and> b < 0xF0
      then (case ts of
              t1 # t2 # r \<Rightarrow>
                (case continuation t1 of
                   None \<Rightarrow> None
                 | Some x1 \<Rightarrow>
                     (case continuation t2 of
                        None \<Rightarrow> None
                      | Some x2 \<Rightarrow>
                          (let cp = (b - 0xE0) * 0x1000 + x1 * 0x40 + x2
                           in if 0x800 \<le> cp \<and> (cp < 0xD800 \<or> 0xDFFF < cp)
                              then map_option ((@) (utf16_units cp)) (decode_utf8 r)
                              else None)))
            | _ \<Rightarrow> None)
      else if 0xF0 \<le> b \<and> b < 0xF8
      then (case ts of
              t1 # t2 # t3 # r \<Rightarrow>
                (case continuation t1 of
                   None \<Rightarrow> None
                 | Some x1 \<Rightarrow>
                     (case continuation t2 of
                        None \<Rightarrow> None
                      | Some x2 \<Rightarrow>
                          (case continuation t3 of
                             None \<Rightarrow> None
                           | Some x3 \<Rightarrow>
                               (let cp = (b - 0xF0) * 0x40000 + x1 * 0x1000 + x2 * 0x40 + x3
                                in if 0x10000 \<le> cp \<and> cp \<le> 0x10FFFF
                                   then map_option ((@) (utf16_units cp)) (decode_utf8 r)
                                   else None))))
            | _ \<Rightarrow> None)
      else None)"

definition percent_decode :: "jsstring \<Rightarrow> jsstring option" where
  "percent_decode s = (case unescape s of None \<Rightarrow> None | Some ts \<Rightarrow> decode_utf8 ts)"

text \<open>Strings in which every surrogate has its partner.\<close>

fun well_formed_utf16 :: "jsstring \<Rightarrow> bool" where
  "well_formed_utf16 [] = True"
| "well_formed_utf16 (c # cs) =
     (if is_leading_surrogate c
      then (case cs of [] \<Rightarrow> False | d # ds \<Rightarrow> is_trailing_surrogate d \<and> well_formed_utf16 ds)
      else \<not> is_trailing_surrogate c \<and> well_formed_utf16 cs)"

section \<open>A sample page\<close>

text \<open>
  A small page on which the development is exercised:
  \<^verbatim>\<open><html><body><h1></h1><div class="box a"><span>hi</span></div><p><span></span></p><undefined></undefined></body></html>\<close>
  with the references 0 (document), 1 (\<open>html\<close>), 2 (\<open>body\<close>), 3 (\<open>h1\<close>), 4 (\<open>div\<close>),
  5 and 8 (the \<open>span\<close>s), 6 (the text), 7 (\<open>p\<close>) and 9 (an element whose tag name
  is \<open>undefined\<close>). Only elements have \<open>matches\<close>: on the document and on the text the
  call is a \<open>TypeError\<close>. On an element the host converts an absent selector to the text
  \<open>undefined\<close>, a type selector, and rejects the empty selector.
\<close>

definition sample_tree :: node where
  "sample_tree =
     Node 0 DOCUMENT_NODE
       [Node 1 ELEMENT_NODE
          [Node 2 ELEMENT_NODE
             [Node 3 ELEMENT_NODE [],
              Node 4 ELEMENT_NODE [Node 5 ELEMENT_NODE [Node 6 TEXT_NODE []]],
              Node 7 ELEMENT_NODE [Node 8 ELEMENT_NODE []],
              Node 9 ELEMENT_NODE []]]]"

definition sample_matches :: "ref \<Rightarrow> jsstring option \<Rightarrow> error + bool" where
  "sample_matches r sel =
     (if r = 0 \<or> r = 6 then Inl TypeError
      else
        case sel of
          None \<Rightarrow> Inr (r = 9)
        | Some s \<Rightarrow>
            if s = [] then Inl SyntaxError
            else if s = js ''.box'' \<or> s = js ''.a'' then Inr (r = 4)
            else if s = js ''span'' then Inr (r = 5 \<or> r = 8)
            else if s = js ''undefined'' then Inr (r = 9)
            else Inr False)"

definition sample_innerHTML :: "ref \<Rightarrow> jsstring option" where
  "sample_innerHTML r =
     (if r = 4 then Some (js ''<span>hi</span>'')
      else if r = 5 then Some (js ''hi'')
      else if r = 7 then Some (js ''<span></span>'')
      else if r = 6 \<or> r = 0 then None
      else Some [])"

text \<open>What the host reports of a frame once it has rendered.\<close>

definition rendered :: "ref \<Rightarrow> error + frame_document" where
  "rendered r =
     Inr \<lparr>documentElement = Some \<lparr>scrollHeight = 120, offsetHeight = 118, clientHeight = 150\<rparr>,
          body = Some \<lparr>scrollHeight = 96, offsetHeight = 100, clientHeight = 100\<rparr>\<rparr>"

definition sample_host :: host where
  "sample_host =
     \<lparr>matches = sample_matches, innerHTML = sample_innerHTML, srcdoc_supported = True,
      contentWindow_document = rendered\<rparr>"

text \<open>The same host without \<open>srcdoc\<close> on frame elements.\<close>

definition legacy_host :: host where
  "legacy_host = sample_host\<lparr>srcdoc_supported := False\<rparr>"

definition box_rule :: cssrule where
  "box_rule = CSSRule (Some (js ''.box'')) (js ''.box{padding:10px}'') None"

definition span_rule :: cssrule where
  "span_rule = CSSRule (Some (js ''span'')) (js ''span{margin:0}'') None"

definition media_nested :: "cssrule list" where
  "media_nested =
     [CSSRule (Some (js ''.a'')) (js ''.a{color:red}'') None,
      CSSRule (Some (js ''.b'')) (js ''.b{color:blue}'') None]"

definition media_rule :: cssrule where
  "media_rule =
     CSSRule None (js ''@media screen{.a{color:red}.b{color:blue}}'') (Some media_nested)"

definition font_face_rule :: cssrule where
  "font_face_rule = CSSRule None (js ''@font-face{font-family:x}'') None"

text \<open>
  Conditional groups with nested rules that have no selector: one that holds a
  \<open>@font-face\<close> rule alone, and one that holds it after a rule with a selector.
\<close>

definition font_face_group :: cssrule where
  "font_face_group =
     CSSRule None (js ''@media screen{@font-face{font-family:x}}'') (Some [font_face_rule])"

definition b_rule :: cssrule where
  "b_rule = CSSRule (Some (js ''.b'')) (js ''.b{color:blue}'') None"

definition supports_group :: cssrule where
  "supports_group =
     CSSRule None (js ''@supports (display:grid){.b{color:blue}@font-face{font-family:x}}'')
       (Some [b_rule, font_face_rule])"

text \<open>
  Conditional groups with a \<open>@page\<close> rule, whose \<open>selectorText\<close> is the empty text, after
  and before a rule that matches the \<open>div\<close>.
\<close>

definition page_rule :: cssrule where
  "page_rule = CSSRule (Some []) (js ''@page{margin:0}'') None"

definition a_rule :: cssrule where
  "a_rule = CSSRule (Some (js ''.a'')) (js ''.a{color:red}'') None"

definition page_last_group :: cssrule where
  "page_last_group =
     CSSRule None (js ''@media print{.a{color:red}@page{margin:0}}'')
       (Some [a_rule, page_rule])"

definition page_first_group :: cssrule where
  "page_first_group =
     CSSRule None (js ''@media print{.b{color:blue}@page{margin:0}.a{color:red}}'')
       (Some [b_rule, page_rule, a_rule])"

text \<open>
  Three style sheets: the second has no readable rule list; the third repeats the text
  of a rule of the first.
\<close>

definition sample_sheets :: "stylesheet list" where
  "sample_sheets =
     [CSSStyleSheet (Inr (Some [box_rule, span_rule])) (Inr None),
      CSSStyleSheet (Inr None) (Inr None),
      CSSStyleSheet (Inr None) (Inr (Some [media_rule, span_rule, font_face_rule]))]"

definition sample_state :: state where
  "sample_state =
     \<lparr>document = sample_tree, detached = [], styleSheets = sample_sheets,
      reflected = (\<lambda>r. Map.empty), expandos = (\<lambda>r. Map.empty), timers = [], trace = []\<rparr>"

text \<open>The page with the single rule \<open>.box{padding:10px}\<close>.\<close>

definition box_state :: state where
  "box_state = sample_state\<lparr>styleSheets := [CSSStyleSheet (Inr (Some [box_rule])) (Inr None)]\<rparr>"

text \<open>The same page with an empty element, reference 10, that is in no tree.\<close>

definition orphan_state :: state where
  "orphan_state = box_state\<lparr>detached := [Node 10 ELEMENT_NODE []]\<rparr>"

definition orphan_html :: jsstring where
  "orphan_html =
     js ''<!doctype html><html lang=\"en\"><head><style></style></head><body></body></html>''"

definition orphan_encoded :: jsstring where
  "orphan_encoded =
     js (''%3C!doctype%20html%3E%3Chtml%20lang=%22en%22%3E%3Chead%3E%3Cstyle%3E'' @
         ''%3C/style%3E%3C/head%3E%3Cbody%3E%3C/body%3E%3C/html%3E'')"

text \<open>The page with a first style sheet whose \<open>cssRules\<close> getter throws.\<close>

definition cross_origin_state :: state where
  "cross_origin_state =
     sample_state\<lparr>styleSheets :=
       [CSSStyleSheet (Inl SecurityError) (Inl SecurityError),
        CSSStyleSheet (Inr (Some [box_rule])) (Inr None)]\<rparr>"

text \<open>The document synthesised for the \<open>div\<close> of that page, and its encoding.\<close>

definition box_html :: jsstring where
  "box_html =
     js (''<!doctype html><html lang=\"en\"><head><style>'' @ ''.box{padding:10px}'' @
         ''</style></head><body>'' @ ''<span>hi</span>'' @ ''</body></html>'')"

definition box_encoded :: jsstring where
  "box_encoded =
     js (''%3C!doctype%20html%3E%3Chtml%20lang=%22en%22%3E%3Chead%3E%3Cstyle%3E'' @
         ''.box%7Bpadding:10px%7D'' @ ''%3C/style%3E%3C/head%3E%3Cbody%3E'' @
         ''%3Cspan%3Ehi%3C/span%3E'' @ ''%3C/body%3E%3C/html%3E'')"

text \<open>The same host for a \<open>div\<close> whose text ends in a leading surrogate without its partner.\<close>

definition surrogate_host :: host where
  "surrogate_host = sample_host\<lparr>innerHTML := (\<lambda>r. Some [0x68, 0x69, 0xD83D])\<rparr>"

definition surrogate_html :: jsstring where
  "surrogate_html =
     js (''<!doctype html><html lang=\"en\"><head><style>'' @ ''.box{padding:10px}'' @
         ''</style></head><body>'') @ [0x68, 0x69, 0xD83D] @ js ''</body></html>''"

section \<open>Rule relevance\<close>

text \<open>
  The loop over the nested rules asks the host about one rule after the other and stops at
  the first answer that is not false: rules the host answers false for change nothing.
\<close>

lemma shouldAddRule_loop_append:
  assumes "\<forall>q \<in> set pre. matches h node (selectorText q) = Inr False"
  shows "shouldAddRule_loop h node (pre @ rs) = shouldAddRule_loop h node rs"
  using assms by (induction pre) simp_all

lemma shouldAddRule_loop_first:
  assumes "\<forall>q \<in> set pre. matches h node (selectorText q) = Inr False"
  shows "shouldAddRule_loop h node (pre @ r # post) =
           (case matches h node (selectorText r) of
              Inl e \<Rightarrow> Inl e
            | Inr b \<Rightarrow> if b then Inr True else shouldAddRule_loop h node post)"
  by (simp add: shouldAddRule_loop_append [OF assms])

lemma shouldAddRule_loop_False:
  "shouldAddRule_loop h node rs = Inr False \<longleftrightarrow>
     (\<forall>r \<in> set rs. matches h node (selectorText r) = Inr False)"
  by (induction rs) (auto split: sum.splits if_splits)

lemma shouldAddRule_loop_stops:
  assumes "shouldAddRule_loop h node rs = v" and "v \<noteq> Inr False"
  shows "\<exists>pre r post. rs = pre @ r # post \<and>
           (\<forall>q \<in> set pre. matches h node (selectorText q) = Inr False) \<and>
           matches h node (selectorText r) = v"
  using assms
proof (induction rs)
  case Nil
  then show ?case by simp
next
  case (Cons r rs)
  show ?case
  proof (cases "matches h node (selectorText r) = Inr False")
    case True
    with Cons.prems have "shouldAddRule_loop h node rs = v" by simp
    from Cons.IH [OF this Cons.prems(2)] obtain pre r' post
      where "rs = pre @ r' # post"
        and "\<forall>q \<in> set pre. matches h node (selectorText q) = Inr False"
        and "matches h node (selectorText r') = v"
      by blast
    with True have "r # rs = (r # pre) @ r' # post \<and>
        (\<forall>q \<in> set (r # pre). matches h node (selectorText q) = Inr False) \<and>
        matches h node (selectorText r') = v"
      by simp
    then show ?thesis by blast
  next
    case False
    with Cons.prems(1) have "matches h node (selectorText r) = v"
      by (auto split: sum.splits if_splits)
    then have "r # rs = [] @ r # rs \<and>
        (\<forall>q \<in> set []. matches h node (selectorText q) = Inr False) \<and>
        matches h node (selectorText r) = v"
      by simp
    then show ?thesis by blast
  qed
qed

lemma shouldAddRule_loop_True:
  "shouldAddRule_loop h node rs = Inr True \<longleftrightarrow>
     (\<exists>pre r post. rs = pre @ r # post \<and>
        (\<forall>q \<in> set pre. matches h node (selectorText q) = Inr False) \<and>
        matches h node (selectorText r) = Inr True)"
proof
  assume "shouldAddRule_loop h node rs = Inr True"
  from shouldAddRule_loop_stops [OF this] show
    "\<exists>pre r post. rs = pre @ r # post \<and>
        (\<forall>q \<in> set pre. matches h node (selectorText q) = Inr False) \<and>
        matches h node (selectorText r) = Inr True"
    by simp
next
  assume "\<exists>pre r post. rs = pre @ r # post \<and>
        (\<forall>q \<in> set pre. matches h node (selectorText q) = Inr False) \<and>
        matches h node (selectorText r) = Inr True"
  then show "shouldAddRule_loop h node rs = Inr True"
    by (auto simp add: shouldAddRule_loop_first)
qed

lemma shouldAddRule_loop_throws:
  "shouldAddRule_loop h node rs = Inl e \<longleftrightarrow>
     (\<exists>pre r post. rs = pre @ r # post \<and>
        (\<forall>q \<in> set pre. matches h node (selectorText q) = Inr False) \<and>
        matches h node (selectorText r) = Inl e)"
proof
  assume "shouldAddRule_loop h node rs = Inl e"
  from shouldAddRule_loop_stops [OF this] show
    "\<exists>pre r post. rs = pre @ r # post \<and>
        (\<forall>q \<in> set pre. matches h node (selectorText q) = Inr False) \<and>
        matches h node (selectorText r) = Inl e"
    by simp
next
  assume "\<exists>pre r post. rs = pre @ r # post \<and>
        (\<forall>q \<in> set pre. matches h node (selectorText q) = Inr False) \<and>
        matches h node (selectorText r) = Inl e"
  then show "shouldAddRule_loop h node rs = Inl e"
    by (auto simp add: shouldAddRule_loop_first)
qed

lemma shouldAddRule_loop_total:
  assumes "\<forall>r \<in> set rs. \<exists>b. matches h node (selectorText r) = Inr b"
  shows "shouldAddRule_loop h node rs =
           Inr (\<exists>r \<in> set rs. matches h node (selectorText r) = Inr True)"
  using assms
proof (induction rs)
  case Nil
  show ?case by simp
next
  case (Cons r rs)
  from Cons.prems obtain b where b: "matches h node (selectorText r) = Inr b"
    by auto
  from Cons.prems have "\<forall>r \<in> set rs. \<exists>b. matches h node (selectorText r) = Inr b"
    by simp
  with Cons.IH have
    "shouldAddRule_loop h node rs =
       Inr (\<exists>r \<in> set rs. matches h node (selectorText r) = Inr True)" .
  with b show ?case by (cases b) simp_all
qed

lemma shouldAddRule_loop_no_selectors:
  assumes "rs \<noteq> []" and "\<forall>r \<in> set rs. selectorText r = None"
  shows "shouldAddRule_loop h node rs = matches h node None"
  using assms
proof (induction rs)
  case Nil
  then show ?case by simp
next
  case (Cons r rs)
  from Cons.prems have r: "selectorText r = None" by simp
  show ?case
  proof (cases rs)
    case Nil
    with r show ?thesis by (simp split: sum.splits)
  next
    case (Cons r' rs')
    with Cons.prems Cons.IH have "shouldAddRule_loop h node rs = matches h node None"
      by simp
    with r show ?thesis by (simp split: sum.splits)
  qed
qed

text \<open>
  C2, as the script has it. For a rule that has a nested rule list, \<open>shouldAddRule\<close> asks
  \<open>node.matches\<close> about the \<open>selectorText\<close> of the nested rules in their order, handing it
  over as it is, also when it is absent. It returns true iff the host answers true for some
  nested rule and has answered false for every rule before that one; it returns false iff
  the host answers false for every nested rule; it ends in an exception iff the host throws
  that exception for some nested rule and has answered false for every rule before that
  one. When the host answers for every nested rule, the result is whether some answer is
  true. For a rule without a nested rule list it returns what \<open>node.matches\<close> answers for
  \<open>rule.selectorText\<close>. The function takes no state and returns none.
\<close>

theorem shouldAddRule_first_answer:
  "(cssRules rule = Some nested \<longrightarrow>
      (shouldAddRule h node rule = Inr True \<longleftrightarrow>
         (\<exists>pre r post. nested = pre @ r # post \<and>
            (\<forall>q \<in> set pre. matches h node (selectorText q) = Inr False) \<and>
            matches h node (selectorText r) = Inr True)) \<and>
      (shouldAddRule h node rule = Inr False \<longleftrightarrow>
         (\<forall>r \<in> set nested. matches h node (selectorText r) = Inr False)) \<and>
      (shouldAddRule h node rule = Inl e \<longleftrightarrow>
         (\<exists>pre r post. nested = pre @ r # post \<and>
            (\<forall>q \<in> set pre. matches h node (selectorText q) = Inr False) \<and>
            matches h node (selectorText r) = Inl e))) \<and>
   (cssRules rule = Some nested \<and>
      (\<forall>r \<in> set nested. \<exists>b. matches h node (selectorText r) = Inr b) \<longrightarrow>
      shouldAddRule h node rule =
        Inr (\<exists>r \<in> set nested. matches h node (selectorText r) = Inr True)) \<and>
   (cssRules rule = None \<longrightarrow>
      shouldAddRule h node rule = matches h node (selectorText rule))"
proof (intro conjI impI)
  assume nested: "cssRules rule = Some nested"
  then have loop: "shouldAddRule h node rule = shouldAddRule_loop h node nested"
    by (simp add: shouldAddRule_def)
  show "shouldAddRule h node rule = Inr True \<longleftrightarrow>
         (\<exists>pre r post. nested = pre @ r # post \<and>
            (\<forall>q \<in> set pre. matches h node (selectorText q) = Inr False) \<and>
            matches h node (selectorText r) = Inr True)"
    unfolding loop by (rule shouldAddRule_loop_True)
  show "shouldAddRule h node rule = Inr False \<longleftrightarrow>
         (\<forall>r \<in> set nested. matches h node (selectorText r) = Inr False)"
    unfolding loop by (rule shouldAddRule_loop_False)
  show "shouldAddRule h node rule = Inl e \<longleftrightarrow>
         (\<exists>pre r post. nested = pre @ r # post \<and>
            (\<forall>q \<in> set pre. matches h node (selectorText q) = Inr False) \<and>
            matches h node (selectorText r) = Inl e)"
    unfolding loop by (rule shouldAddRule_loop_throws)
next
  assume "cssRules rule = Some nested \<and>
    (\<forall>r \<in> set nested. \<exists>b. matches h node (selectorText r) = Inr b)"
  then show "shouldAddRule h node rule =
      Inr (\<exists>r \<in> set nested. matches h node (selectorText r) = Inr True)"
    by (simp add: shouldAddRule_def shouldAddRule_loop_total)
next
  assume "cssRules rule = None"
  then show "shouldAddRule h node rule = matches h node (selectorText rule)"
    by (simp add: shouldAddRule_def)
qed

theorem shouldAddRule_first_answer_witness:
  "cssRules media_rule = Some media_nested \<and>
   shouldAddRule sample_host 4 media_rule = Inr True \<and>
   shouldAddRule sample_host 5 media_rule = Inr False \<and>
   cssRules page_last_group = Some ([] @ a_rule # [page_rule]) \<and>
   matches sample_host 4 (selectorText a_rule) = Inr True \<and>
   matches sample_host 4 (selectorText page_rule) = Inl SyntaxError \<and>
   shouldAddRule sample_host 4 page_last_group = Inr True \<and>
   cssRules page_first_group = Some ([b_rule] @ page_rule # [a_rule]) \<and>
   matches sample_host 4 (selectorText b_rule) = Inr False \<and>
   shouldAddRule sample_host 4 page_first_group = Inl SyntaxError \<and>
   cssRules span_rule = None \<and>
   shouldAddRule sample_host 5 span_rule = Inr True"
proof -
  have nested: "cssRules media_rule = Some media_nested"
    by (simp add: media_rule_def)
  have ask4: "matches sample_host 4 (selectorText a_rule) = Inr True"
    "matches sample_host 4 (selectorText b_rule) = Inr False"
    "matches sample_host 4 (selectorText page_rule) = Inl SyntaxError"
    by (simp_all add: a_rule_def b_rule_def page_rule_def sample_host_def sample_matches_def js_def)
  have total: "\<forall>r \<in> set media_nested. \<exists>b. matches sample_host 4 (selectorText r) = Inr b"
    by (auto simp add: media_nested_def sample_host_def sample_matches_def js_def)
  from shouldAddRule_first_answer [of media_rule media_nested sample_host 4] nested total
  have "shouldAddRule sample_host 4 media_rule =
      Inr (\<exists>r \<in> set media_nested. matches sample_host 4 (selectorText r) = Inr True)"
    by blast
  then have at4: "shouldAddRule sample_host 4 media_rule = Inr True"
    by (simp add: media_nested_def sample_host_def sample_matches_def js_def)
  have "\<forall>r \<in> set media_nested. matches sample_host 5 (selectorText r) = Inr False"
    by (simp add: media_nested_def sample_host_def sample_matches_def js_def)
  with shouldAddRule_first_answer [of media_rule media_nested sample_host 5] nested
  have at5: "shouldAddRule sample_host 5 media_rule = Inr False"
    by blast
  have last: "cssRules page_last_group = Some ([] @ a_rule # [page_rule])"
    by (simp add: page_last_group_def)
  have "\<exists>pre r post. [] @ a_rule # [page_rule] = pre @ r # post \<and>
      (\<forall>q \<in> set pre. matches sample_host 4 (selectorText q) = Inr False) \<and>
      matches sample_host 4 (selectorText r) = Inr True"
    using ask4(1) by (intro exI [of _ "[]"] exI [of _ a_rule] exI [of _ "[page_rule]"]) simp
  with shouldAddRule_first_answer [of page_last_group "[] @ a_rule # [page_rule]" sample_host 4] last
  have early: "shouldAddRule sample_host 4 page_last_group = Inr True"
    by blast
  have first: "cssRules page_first_group = Some ([b_rule] @ page_rule # [a_rule])"
    by (simp add: page_first_group_def)
  have "\<exists>pre r post. [b_rule] @ page_rule # [a_rule] = pre @ r # post \<and>
      (\<forall>q \<in> set pre. matches sample_host 4 (selectorText q) = Inr False) \<and>
      matches sample_host 4 (selectorText r) = Inl SyntaxError"
    using ask4(2,3)
    by (intro exI [of _ "[b_rule]"] exI [of _ page_rule] exI [of _ "[a_rule]"]) simp
  with shouldAddRule_first_answer
    [of page_first_group "[b_rule] @ page_rule # [a_rule]" sample_host 4 SyntaxError] first
  have thrown: "shouldAddRule sample_host 4 page_first_group = Inl SyntaxError"
    by blast
  have plain: "cssRules span_rule = None"
    by (simp add: span_rule_def)
  from shouldAddRule_first_answer [of span_rule media_nested sample_host 5] plain
  have "shouldAddRule sample_host 5 span_rule = matches sample_host 5 (selectorText span_rule)"
    by blast
  then have span: "shouldAddRule sample_host 5 span_rule = Inr True"
    by (simp add: span_rule_def sample_host_def sample_matches_def js_def)
  from nested at4 at5 last ask4 early first thrown plain span show ?thesis
    by blast
qed

text \<open>
  C2 as stated, read with the rest of the description, counts a nested rule without a
  \<open>selectorText\<close> as one that matches nothing. The script hands the absent selector to
  \<open>node.matches\<close>, and the host reads it as the type selector \<open>undefined\<close>: a group whose
  only nested rule is a \<open>@font-face\<close> rule, which has no selector, is relevant to the
  element named \<open>undefined\<close>.
\<close>

theorem shouldAddRule_selectorless_group_counterexample:
  "cssRules font_face_group = Some [font_face_rule] \<and>
   selectorText font_face_rule = None \<and>
   shouldAddRule sample_host 9 font_face_group = Inr True"
  by (simp add: shouldAddRule_def font_face_group_def font_face_rule_def sample_host_def
      sample_matches_def)

text \<open>
  C10, as the script has it. \<open>shouldAddRule\<close> hands an absent \<open>selectorText\<close> to
  \<open>node.matches\<close> on both of its paths, and nowhere answers false by itself. A rule
  without a nested rule list gives what \<open>node.matches\<close> answers for its \<open>selectorText\<close>,
  also when that is absent. A nested rule without a selector that the loop reaches (the
  host having answered false for the rules before it) is asked about in the same way: the
  exception or the answer true of the host for the absent selector is the result, and on
  the answer false the loop goes on with the rules after it. For a group whose nested rules
  all lack a selector the result is what \<open>node.matches\<close> answers for the absent selector.
\<close>

theorem shouldAddRule_absent_selector_both_paths:
  "(cssRules rule = None \<longrightarrow>
      shouldAddRule h node rule = matches h node (selectorText rule)) \<and>
   (cssRules rule = None \<and> selectorText rule = None \<longrightarrow>
      shouldAddRule h node rule = matches h node None) \<and>
   (cssRules rule = Some (pre @ r # post) \<and> selectorText r = None \<and>
      (\<forall>q \<in> set pre. matches h node (selectorText q) = Inr False) \<longrightarrow>
      shouldAddRule h node rule =
        (case matches h node None of
           Inl e \<Rightarrow> Inl e
         | Inr b \<Rightarrow> if b then Inr True else shouldAddRule_loop h node post)) \<and>
   (cssRules rule = Some nested \<and> nested \<noteq> [] \<and>
      (\<forall>r \<in> set nested. selectorText r = None) \<longrightarrow>
      shouldAddRule h node rule = matches h node None)"
proof (intro conjI impI)
  assume "cssRules rule = None"
  then show "shouldAddRule h node rule = matches h node (selectorText rule)"
    by (simp add: shouldAddRule_def)
next
  assume "cssRules rule = None \<and> selectorText rule = None"
  then show "shouldAddRule h node rule = matches h node None"
    by (simp add: shouldAddRule_def)
next
  assume reached: "cssRules rule = Some (pre @ r # post) \<and> selectorText r = None \<and>
      (\<forall>q \<in> set pre. matches h node (selectorText q) = Inr False)"
  then have "shouldAddRule h node rule = shouldAddRule_loop h node (pre @ r # post)"
    by (simp add: shouldAddRule_def)
  also from reached have "\<dots> =
      (case matches h node (selectorText r) of
         Inl e \<Rightarrow> Inl e
       | Inr b \<Rightarrow> if b then Inr True else shouldAddRule_loop h node post)"
    by (intro shouldAddRule_loop_first) simp
  finally show "shouldAddRule h node rule =
        (case matches h node None of
           Inl e \<Rightarrow> Inl e
         | Inr b \<Rightarrow> if b then Inr True else shouldAddRule_loop h node post)"
    using reached by simp
next
  assume "cssRules rule = Some nested \<and> nested \<noteq> [] \<and>
      (\<forall>r \<in> set nested. selectorText r = None)"
  then show "shouldAddRule h node rule = matches h node None"
    by (simp add: shouldAddRule_def shouldAddRule_loop_no_selectors)
qed

theorem shouldAddRule_absent_selector_both_paths_witness:
  "cssRules font_face_rule = None \<and> selectorText font_face_rule = None \<and>
   shouldAddRule sample_host 9 font_face_rule = Inr True \<and>
   shouldAddRule sample_host 4 font_face_rule = Inr False \<and>
   cssRules supports_group = Some ([b_rule] @ font_face_rule # []) \<and>
   matches sample_host 9 (selectorText b_rule) = Inr False \<and>
   matches sample_host 4 (selectorText b_rule) = Inr False \<and>
   shouldAddRule sample_host 9 supports_group = Inr True \<and>
   shouldAddRule sample_host 4 supports_group = Inr False \<and>
   cssRules font_face_group = Some [font_face_rule] \<and>
   shouldAddRule sample_host 4 font_face_group = Inr False \<and>
   shouldAddRule sample_host 0 font_face_group = Inl TypeError"
proof -
  have top: "cssRules font_face_rule = None \<and> selectorText font_face_rule = None"
    by (simp add: font_face_rule_def)
  have absent: "matches sample_host 9 None = Inr True" "matches sample_host 4 None = Inr False"
    "matches sample_host 0 None = Inl TypeError"
    by (simp_all add: sample_host_def sample_matches_def)
  have b: "matches sample_host 9 (selectorText b_rule) = Inr False"
    "matches sample_host 4 (selectorText b_rule) = Inr False"
    by (simp_all add: b_rule_def sample_host_def sample_matches_def js_def)
  have mixed: "cssRules supports_group = Some ([b_rule] @ font_face_rule # [])"
    by (simp add: supports_group_def)
  have alone: "cssRules font_face_group = Some [font_face_rule]"
    by (simp add: font_face_group_def)
  from shouldAddRule_absent_selector_both_paths [of font_face_rule sample_host 9] top absent(1)
  have top9: "shouldAddRule sample_host 9 font_face_rule = Inr True"
    by simp
  from shouldAddRule_absent_selector_both_paths [of font_face_rule sample_host 4] top absent(2)
  have top4: "shouldAddRule sample_host 4 font_face_rule = Inr False"
    by simp
  from shouldAddRule_absent_selector_both_paths
    [of supports_group sample_host 9 "[b_rule]" font_face_rule "[]"] mixed top b(1) absent(1)
  have nested9: "shouldAddRule sample_host 9 supports_group = Inr True"
    by simp
  from shouldAddRule_absent_selector_both_paths
    [of supports_group sample_host 4 "[b_rule]" font_face_rule "[]"] mixed top b(2) absent(2)
  have nested4: "shouldAddRule sample_host 4 supports_group = Inr False"
    by simp
  from shouldAddRule_absent_selector_both_paths
    [of font_face_group sample_host 4 _ _ _ "[font_face_rule]"] alone top absent(2)
  have alone4: "shouldAddRule sample_host 4 font_face_group = Inr False"
    by simp
  from shouldAddRule_absent_selector_both_paths
    [of font_face_group sample_host 0 _ _ _ "[font_face_rule]"] alone top absent(3)
  have alone0: "shouldAddRule sample_host 0 font_face_group = Inl TypeError"
    by simp
  from top mixed b top9 top4 nested9 nested4 alone alone4 alone0 show ?thesis
    by blast
qed

text \<open>
  C10 as stated says that inside a conditional group a rule without a selector is treated
  as matching nothing. The script has no such check: in a group that holds \<open>.b\<close>, which the
  element named \<open>undefined\<close> does not match, and a \<open>@font-face\<close> rule, the absent selector
  of the latter goes to \<open>node.matches\<close> and makes the group relevant to that element,
  exactly as it makes the \<open>@font-face\<close> rule relevant at top level.
\<close>

theorem shouldAddRule_nested_absent_selector_counterexample:
  "cssRules supports_group = Some [b_rule, font_face_rule] \<and>
   matches sample_host 9 (selectorText b_rule) = Inr False \<and>
   selectorText font_face_rule = None \<and>
   shouldAddRule sample_host 9 supports_group = Inr True \<and>
   shouldAddRule sample_host 9 font_face_rule = Inr True"
  by (simp add: shouldAddRule_def supports_group_def b_rule_def font_face_rule_def
      sample_host_def sample_matches_def js_def)

section \<open>Collecting the rules of a tree\<close>

subsection \<open>Keys in creation order\<close>

lemma first_occurrences_snoc:
  "first_occurrences (xs @ [x]) =
     (if x \<in> set xs then first_occurrences xs else first_occurrences xs @ [x])"
  by (simp add: first_occurrences_def)

lemma set_first_occurrences [simp]: "set (first_occurrences xs) = set xs"
  by (simp add: first_occurrences_def)

lemma distinct_first_occurrences [simp]: "distinct (first_occurrences xs)"
  by (simp add: first_occurrences_def)

lemma first_occurrences_distinct: "distinct xs \<Longrightarrow> first_occurrences xs = xs"
  by (simp add: first_occurrences_def distinct_remdups_id)

lemma first_occurrences_append:
  "first_occurrences (xs @ ys) =
     first_occurrences xs @ filter (\<lambda>y. y \<notin> set xs) (first_occurrences ys)"
proof (induction ys rule: rev_induct)
  case Nil
  show ?case by (simp add: first_occurrences_def)
next
  case (snoc y ys)
  have "first_occurrences (xs @ ys @ [y]) =
      (if y \<in> set (xs @ ys) then first_occurrences (xs @ ys)
       else first_occurrences (xs @ ys) @ [y])"
    using first_occurrences_snoc [of "xs @ ys" y] by simp
  with snoc show ?case
    by (auto simp add: first_occurrences_snoc)
qed

lemma first_occurrences_merge:
  "first_occurrences (first_occurrences xs @ first_occurrences ys) = first_occurrences (xs @ ys)"
  by (simp add: first_occurrences_append [of "first_occurrences xs"]
      first_occurrences_append [of xs] first_occurrences_distinct)

lemma keys_object_set:
  "plain_key k \<Longrightarrow>
     map fst (object_set obj k v) =
       (if k \<in> set (map fst obj) then map fst obj else map fst obj @ [k])"
proof -
  have "map fst (map (\<lambda>(k', v'). if k' = k then (k', v) else (k', v')) obj) = map fst obj"
    by (induction obj) auto
  then show "plain_key k \<Longrightarrow> ?thesis"
    by (simp add: object_set_def plain_key_def)
qed

lemma keys_object_set_first:
  assumes "plain_key k" and "map fst obj = first_occurrences A"
  shows "map fst (object_set obj k v) = first_occurrences (A @ [k])"
  using assms by (simp add: keys_object_set first_occurrences_snoc)

lemma relevant_texts_Cons:
  "relevant_texts h (r # rs) node =
     (if shouldAddRule h node r = Inr True then [cssText r] else []) @ relevant_texts h rs node"
  by (simp add: relevant_texts_def)

lemma relevant_texts_append:
  "relevant_texts h (rs @ rs') node = relevant_texts h rs node @ relevant_texts h rs' node"
  by (simp add: relevant_texts_def)

lemma rules_loop_keys:
  assumes "\<forall>r \<in> set rs. \<exists>b. shouldAddRule h node r = Inr b"
    and "\<forall>r \<in> set rs. plain_key (cssText r)"
    and "map fst obj = first_occurrences A"
  shows "\<exists>obj'. rules_loop h node rs obj = Inr obj' \<and>
           map fst obj' = first_occurrences (A @ relevant_texts h rs node)"
  using assms
proof (induction rs arbitrary: obj A)
  case Nil
  then show ?case by (simp add: relevant_texts_def)
next
  case (Cons r rs)
  from Cons.prems(1) obtain b where b: "shouldAddRule h node r = Inr b" by auto
  from Cons.prems(2) have plain: "plain_key (cssText r)" by simp
  show ?case
  proof (cases b)
    case True
    have "map fst (object_set obj (cssText r) True) = first_occurrences (A @ [cssText r])"
      using plain Cons.prems(3) by (rule keys_object_set_first)
    from Cons.IH [OF _ _ this] Cons.prems(1,2) b True show ?thesis
      by (simp add: relevant_texts_Cons)
  next
    case False
    from Cons.IH [OF _ _ Cons.prems(3)] Cons.prems(1,2) b False show ?thesis
      by (simp add: relevant_texts_Cons)
  qed
qed

lemma top_rules_Cons:
  "top_rules (s # ss) =
     (case sheet_rule_list s of Inr (Some l) \<Rightarrow> l | _ \<Rightarrow> []) @ top_rules ss"
  by (simp add: top_rules_def)

lemma sheets_loop_keys:
  assumes "\<forall>s \<in> set ss. \<exists>l. sheet_rule_list s = Inr l"
    and "\<forall>r \<in> set (top_rules ss). \<exists>b. shouldAddRule h node r = Inr b"
    and "\<forall>r \<in> set (top_rules ss). plain_key (cssText r)"
    and "map fst obj = first_occurrences A"
  shows "\<exists>obj'. sheets_loop h node ss obj = Inr obj' \<and>
           map fst obj' = first_occurrences (A @ relevant_texts h (top_rules ss) node)"
  using assms
proof (induction ss arbitrary: obj A)
  case Nil
  then show ?case by (simp add: top_rules_def relevant_texts_def)
next
  case (Cons s ss)
  from Cons.prems(1) obtain l where l: "sheet_rule_list s = Inr l" by auto
  have rest: "\<forall>s \<in> set ss. \<exists>l. sheet_rule_list s = Inr l"
    "\<forall>r \<in> set (top_rules ss). \<exists>b. shouldAddRule h node r = Inr b"
    "\<forall>r \<in> set (top_rules ss). plain_key (cssText r)"
    using Cons.prems(1,2,3) by (simp_all add: top_rules_Cons)
  show ?case
  proof (cases l)
    case None
    with l have "top_rules (s # ss) = top_rules ss" by (simp add: top_rules_Cons)
    with Cons.IH [OF rest Cons.prems(4)] l None show ?thesis by simp
  next
    case (Some rs)
    with l have top: "top_rules (s # ss) = rs @ top_rules ss" by (simp add: top_rules_Cons)
    have "\<forall>r \<in> set rs. \<exists>b. shouldAddRule h node r = Inr b"
      and "\<forall>r \<in> set rs. plain_key (cssText r)"
      using Cons.prems(2,3) top by simp_all
    from rules_loop_keys [OF this Cons.prems(4)] obtain obj'
      where obj': "rules_loop h node rs obj = Inr obj'"
        "map fst obj' = first_occurrences (A @ relevant_texts h rs node)" by blast
    from Cons.IH [OF rest obj'(2)] obj'(1) l Some top show ?thesis
      by (simp add: relevant_texts_append)
  qed
qed

lemma getRulesImpactingNode_keys:
  assumes "\<forall>s \<in> set (styleSheets st). \<exists>l. sheet_rule_list s = Inr l"
    and "\<forall>r \<in> set (top_rules (styleSheets st)). \<exists>b. shouldAddRule h node r = Inr b"
    and "\<forall>r \<in> set (top_rules (styleSheets st)). plain_key (cssText r)"
  shows "\<exists>obj. getRulesImpactingNode h st node = Inr obj \<and>
           map fst obj = first_occurrences (relevant_texts h (top_rules (styleSheets st)) node)"
  using sheets_loop_keys [OF assms, of "[]" "[]"]
  by (simp add: getRulesImpactingNode_def first_occurrences_def)

lemma Object_keys_plain:
  assumes "\<forall>k \<in> set (map fst obj). plain_key k"
  shows "Object_keys obj = map fst obj"
proof -
  from assms have "filter is_array_index (map fst obj) = []"
    and "filter (\<lambda>k. \<not> is_array_index k) (map fst obj) = map fst obj"
    by (auto simp add: plain_key_def filter_empty_conv filter_id_conv)
  then show ?thesis by (simp add: Object_keys_def Let_def)
qed

lemma object_copy_fold_keys:
  assumes "\<forall>k \<in> set ks. plain_key k \<and> k \<in> set (map fst source)"
    and "map fst target = first_occurrences A"
  shows "map fst (foldl (\<lambda>t k. case map_of source k of Some v \<Rightarrow> object_set t k v | None \<Rightarrow> t)
            target ks) = first_occurrences (A @ ks)"
  using assms
proof (induction ks arbitrary: target A)
  case Nil
  then show ?case by simp
next
  case (Cons k ks)
  from Cons.prems(1) have "k \<in> set (map fst source)" by simp
  then obtain v where v: "map_of source k = Some v"
    by (metis map_of_eq_None_iff not_None_eq set_map)
  from Cons.prems(1) have "plain_key k" by simp
  then have "map fst (object_set target k v) = first_occurrences (A @ [k])"
    using Cons.prems(2) by (rule keys_object_set_first)
  from Cons.IH [OF _ this] Cons.prems(1) v show ?case by simp
qed

lemma object_copy_keys:
  assumes "\<forall>k \<in> set (map fst source). plain_key k"
    and "map fst target = first_occurrences A"
  shows "map fst (object_copy target source) = first_occurrences (A @ map fst source)"
  unfolding object_copy_def Object_keys_plain [OF assms(1)]
  by (rule object_copy_fold_keys) (use assms in auto)

lemma Object_assign_keys:
  assumes "\<forall>k \<in> set (map fst tree). plain_key k"
    and "\<forall>k \<in> set (map fst impacting). plain_key k"
  shows "map fst (Object_assign [] [tree, impacting]) =
           first_occurrences (map fst tree @ map fst impacting)"
proof -
  have "map fst ([] :: js_object) = first_occurrences []"
    by (simp add: first_occurrences_def)
  from object_copy_keys [OF assms(1) this]
  have "map fst (object_copy [] tree) = first_occurrences (map fst tree)" by simp
  from object_copy_keys [OF assms(2) this] show ?thesis
    by (simp add: Object_assign_def)
qed

lemma relevant_texts_plain:
  assumes "\<forall>r \<in> set rules. plain_key (cssText r)"
  shows "\<forall>k \<in> set (relevant_texts h rules node). plain_key k"
  using assms by (auto simp add: relevant_texts_def)

lemma reduce_keys:
  assumes "\<forall>s \<in> set (styleSheets st). \<exists>l. sheet_rule_list s = Inr l"
    and "\<forall>c \<in> set cs. \<forall>r \<in> set (top_rules (styleSheets st)). \<exists>b. shouldAddRule h c r = Inr b"
    and "\<forall>r \<in> set (top_rules (styleSheets st)). plain_key (cssText r)"
    and "map fst tree = first_occurrences A"
    and "\<forall>k \<in> set A. plain_key k"
  shows "\<exists>rules.
           reduce (\<lambda>tree child.
               case getRulesImpactingNode h st child of
                 Inl e \<Rightarrow> Inl e
               | Inr impacting \<Rightarrow> Inr (Object_assign [] [tree, impacting])) cs tree = Inr rules \<and>
           map fst rules =
             first_occurrences (A @ concat (map (relevant_texts h (top_rules (styleSheets st))) cs))"
  using assms(2,4,5)
proof (induction cs arbitrary: tree A)
  case Nil
  then show ?case by simp
next
  case (Cons c cs)
  let ?R = "relevant_texts h (top_rules (styleSheets st)) c"
  from Cons.prems(1)
  have "\<forall>r \<in> set (top_rules (styleSheets st)). \<exists>b. shouldAddRule h c r = Inr b" by simp
  from getRulesImpactingNode_keys [OF assms(1) this assms(3)] obtain impacting
    where imp: "getRulesImpactingNode h st c = Inr impacting"
      "map fst impacting = first_occurrences ?R" by blast
  have plainR: "\<forall>k \<in> set ?R. plain_key k"
    using assms(3) by (rule relevant_texts_plain)
  have "\<forall>k \<in> set (map fst tree). plain_key k"
    using Cons.prems(2,3) by simp
  moreover have "\<forall>k \<in> set (map fst impacting). plain_key k"
    using imp(2) plainR by simp
  ultimately have "map fst (Object_assign [] [tree, impacting]) =
      first_occurrences (map fst tree @ map fst impacting)"
    by (rule Object_assign_keys)
  then have keys: "map fst (Object_assign [] [tree, impacting]) = first_occurrences (A @ ?R)"
    by (simp add: Cons.prems(2) imp(2) first_occurrences_merge)
  have "\<forall>k \<in> set (A @ ?R). plain_key k"
    using Cons.prems(3) plainR by auto
  from Cons.IH [OF _ keys this] Cons.prems(1) imp(1) show ?case by simp
qed

lemma find_node_ident:
  "find_node x n = Some m \<Longrightarrow> ident m = x"
  "find_in x ns = Some m \<Longrightarrow> ident m = x"
  by (induction x n and x ns rule: find_node_find_in.induct)
    (auto split: if_splits option.splits)

lemma css_rule_text_plain: "css_rule_text t \<Longrightarrow> plain_key t"
proof -
  assume t: "css_rule_text t"
  have brace: "\<not> is_digit 0x7B" and at: "\<not> is_digit 0x40"
    by (simp_all add: is_digit_def)
  have "\<not> list_all is_digit t"
  proof (cases "0x7B \<in> set t")
    case True
    with brace show ?thesis by (auto simp add: list_all_iff)
  next
    case False
    with t obtain cs where "t = 0x40 # cs"
      by (auto simp add: css_rule_text_def split: list.splits)
    with at show ?thesis by simp
  qed
  moreover from t have "t \<noteq> js ''__proto__''"
    by (auto simp add: css_rule_text_def js_def)
  ultimately show ?thesis
    by (simp add: plain_key_def is_array_index_def)
qed

lemmas sample_page =
  sample_state_def sample_tree_def sample_sheets_def sample_host_def sample_matches_def
  sample_innerHTML_def box_rule_def span_rule_def media_rule_def media_nested_def
  font_face_rule_def box_state_def cross_origin_state_def

lemmas script_defs =
  getStylesForTree_def getRulesImpactingNode_def querySelectorAll_all_def forest_def
  sheet_rule_list_def shouldAddRule_def Object_assign_def object_copy_def Object_keys_def
  object_set_def is_array_index_def is_digit_def js_def

subsection \<open>The result of the walk\<close>

text \<open>
  \<open>descendants\<close> lists a subtree in tree order: its references are those of \<open>refs\<close>,
  the plain pre-order listing, without the root.
\<close>

lemma descendants_tree_order: "map ident (descendants n) = forest_refs (childNodes n)"
proof (induction n rule: descendants.induct)
  case (1 r t cs)
  have "map ident (c # descendants c) = refs c" if "c \<in> set cs" for c
    using "1.IH" [OF that] by (cases c) (simp add: forest_refs_def)
  then have "map (\<lambda>c. map ident (c # descendants c)) cs = map refs cs"
    by (rule map_cong [OF refl])
  moreover have "map ident (descendants (Node r t cs)) =
      concat (map (\<lambda>c. map ident (c # descendants c)) cs)"
    by (simp add: map_concat comp_def)
  ultimately show ?case
    by (simp only: forest_refs_def node.sel)
qed

text \<open>
  C1. When the root is a node that has \<open>querySelectorAll\<close>, no style sheet throws on
  reading its rule list and the host answers \<open>matches\<close> for every candidate node and
  every top-level rule, \<open>getStylesForTree\<close> returns the texts of the relevant rules,
  discovered in the order root, then element descendants in tree order
  (\<open>descendants_tree_order\<close>), and per node style sheet by style sheet and rule by rule,
  each text once at its first discovery, joined without a separator. The texts are keys that an object enumerates in creation
  order, as every serialised rule is (\<open>css_rule_text_plain\<close>).
\<close>

theorem getStylesForTree_collects:
  assumes "find_in rootNode (forest st) = Some n" and "nodeType n \<noteq> TEXT_NODE"
    and "\<forall>s \<in> set (styleSheets st). \<exists>l. sheet_rule_list s = Inr l"
    and "\<forall>c \<in> set (candidates n). \<forall>r \<in> set (top_rules (styleSheets st)).
           \<exists>b. shouldAddRule h c r = Inr b"
    and "\<forall>r \<in> set (top_rules (styleSheets st)). plain_key (cssText r)"
  shows "getStylesForTree h st rootNode =
           Inr (concat (first_occurrences (discovered h (styleSheets st) (candidates n)))) \<and>
         distinct (first_occurrences (discovered h (styleSheets st) (candidates n))) \<and>
         set (first_occurrences (discovered h (styleSheets st) (candidates n))) =
           set (discovered h (styleSheets st) (candidates n))"
proof -
  let ?top = "top_rules (styleSheets st)"
  let ?children = "map ident (filter (\<lambda>d. nodeType d = ELEMENT_NODE) (descendants n))"
  have root: "ident n = rootNode"
    using assms(1) by (rule find_node_ident(2))
  then have cand: "candidates n = rootNode # ?children"
    by (simp add: candidates_def)
  have children: "querySelectorAll_all st rootNode = Inr ?children"
    using assms(1,2) by (simp add: querySelectorAll_all_def)
  have "\<forall>r \<in> set ?top. \<exists>b. shouldAddRule h rootNode r = Inr b"
    using assms(4) cand by simp
  from getRulesImpactingNode_keys [OF assms(3) this assms(5)] obtain initial
    where initial: "getRulesImpactingNode h st rootNode = Inr initial"
      "map fst initial = first_occurrences (relevant_texts h ?top rootNode)" by blast
  have "\<forall>c \<in> set ?children. \<forall>r \<in> set ?top. \<exists>b. shouldAddRule h c r = Inr b"
    using assms(4) cand by simp
  from reduce_keys [OF assms(3) this assms(5) initial(2) relevant_texts_plain [OF assms(5)]]
  obtain rules where rules:
    "reduce (\<lambda>tree child.
        case getRulesImpactingNode h st child of
          Inl e \<Rightarrow> Inl e
        | Inr impacting \<Rightarrow> Inr (Object_assign [] [tree, impacting])) ?children initial = Inr rules"
    "map fst rules = first_occurrences
       (relevant_texts h ?top rootNode @ concat (map (relevant_texts h ?top) ?children))"
    by blast
  have disc: "discovered h (styleSheets st) (candidates n) =
      relevant_texts h ?top rootNode @ concat (map (relevant_texts h ?top) ?children)"
    by (simp add: discovered_def cand)
  have "\<forall>k \<in> set (discovered h (styleSheets st) (candidates n)). plain_key k"
    using relevant_texts_plain [OF assms(5)] by (auto simp add: discovered_def)
  then have "\<forall>k \<in> set (map fst rules). plain_key k"
    using rules(2) disc by simp
  then have "Object_keys rules = map fst rules"
    by (rule Object_keys_plain)
  with children initial(1) rules disc show ?thesis
    by (simp add: getStylesForTree_def)
qed

theorem getStylesForTree_collects_witness:
  "find_in 2 (forest sample_state) =
     Some (Node 2 ELEMENT_NODE
       [Node 3 ELEMENT_NODE [],
        Node 4 ELEMENT_NODE [Node 5 ELEMENT_NODE [Node 6 TEXT_NODE []]],
        Node 7 ELEMENT_NODE [Node 8 ELEMENT_NODE []],
        Node 9 ELEMENT_NODE []]) \<and>
   list_all (\<lambda>s. \<exists>l. sheet_rule_list s = Inr l) (styleSheets sample_state) \<and>
   list_all (\<lambda>c. list_all (\<lambda>r. \<exists>b. shouldAddRule sample_host c r = Inr b)
        (top_rules (styleSheets sample_state))) [2, 3, 4, 5, 7, 8, 9] \<and>
   list_all (\<lambda>r. plain_key (cssText r)) (top_rules (styleSheets sample_state)) \<and>
   getStylesForTree sample_host sample_state 2 =
     Inr (js (''.box{padding:10px}'' @ ''@media screen{.a{color:red}.b{color:blue}}'' @
              ''span{margin:0}'' @ ''@font-face{font-family:x}''))"
proof -
  let ?body = "Node 2 ELEMENT_NODE
       [Node 3 ELEMENT_NODE [],
        Node 4 ELEMENT_NODE [Node 5 ELEMENT_NODE [Node 6 TEXT_NODE []]],
        Node 7 ELEMENT_NODE [Node 8 ELEMENT_NODE []],
        Node 9 ELEMENT_NODE []]"
  have root: "find_in 2 (forest sample_state) = Some ?body"
    by (simp add: sample_page forest_def)
  have kind: "nodeType ?body \<noteq> TEXT_NODE" by simp
  have cand: "candidates ?body = [2, 3, 4, 5, 7, 8, 9]"
    by (simp add: candidates_def)
  have top: "top_rules (styleSheets sample_state) =
      [box_rule, span_rule, media_rule, span_rule, font_face_rule]"
    by (simp add: sample_state_def sample_sheets_def top_rules_def sheet_rule_list_def)
  have sheets: "\<forall>s \<in> set (styleSheets sample_state). \<exists>l. sheet_rule_list s = Inr l"
    by (simp add: sample_state_def sample_sheets_def sheet_rule_list_def)
  have answers: "\<forall>c \<in> set (candidates ?body). \<forall>r \<in> set (top_rules (styleSheets sample_state)).
      \<exists>b. shouldAddRule sample_host c r = Inr b"
    unfolding cand top
    by (auto simp add: shouldAddRule_def sample_host_def sample_matches_def box_rule_def
        span_rule_def media_rule_def media_nested_def font_face_rule_def js_def)
  have plain: "\<forall>r \<in> set (top_rules (styleSheets sample_state)). plain_key (cssText r)"
    unfolding top
    by (simp add: css_rule_text_plain css_rule_text_def box_rule_def span_rule_def
        media_rule_def font_face_rule_def js_def)
  have disc: "first_occurrences
      (discovered sample_host (styleSheets sample_state) (candidates ?body)) =
      [js ''.box{padding:10px}'', js ''@media screen{.a{color:red}.b{color:blue}}'',
       js ''span{margin:0}'', js ''@font-face{font-family:x}'']"
    unfolding cand top discovered_def relevant_texts_def first_occurrences_def
    by (simp add: shouldAddRule_def sample_host_def sample_matches_def box_rule_def
        span_rule_def media_rule_def media_nested_def font_face_rule_def js_def)
  from getStylesForTree_collects [OF root kind sheets answers plain]
  have "getStylesForTree sample_host sample_state 2 =
      Inr (concat (first_occurrences
        (discovered sample_host (styleSheets sample_state) (candidates ?body))))"
    by blast
  then have result: "getStylesForTree sample_host sample_state 2 =
      Inr (js (''.box{padding:10px}'' @ ''@media screen{.a{color:red}.b{color:blue}}'' @
               ''span{margin:0}'' @ ''@font-face{font-family:x}''))"
    unfolding disc by (simp add: js_def)
  from root sheets answers plain result show ?thesis
    unfolding list_all_iff cand by blast
qed

subsection \<open>Style sheets without a readable rule list\<close>

lemma sheets_loop_skip:
  assumes "no_rule_list s"
  shows "sheets_loop h node (before @ s # after) object = sheets_loop h node (before @ after) object"
proof (induction before arbitrary: object)
  case Nil
  from assms show ?case by (simp add: no_rule_list_def)
next
  case (Cons b before)
  then show ?case by (simp split: sum.splits option.splits)
qed

text \<open>
  C3, as the script has it. A style sheet whose rule list reads as absent (\<open>cssRules\<close>
  and \<open>rules\<close> both yield nothing, neither throws) is skipped: the result, value or
  exception, is the one for the document without that style sheet.
\<close>

theorem getStylesForTree_skips_absent_rule_list:
  assumes "styleSheets st = before @ s # after" and "no_rule_list s"
  shows "getStylesForTree h st rootNode =
           getStylesForTree h (st\<lparr>styleSheets := before @ after\<rparr>) rootNode"
proof -
  have rules: "getRulesImpactingNode h (st\<lparr>styleSheets := before @ after\<rparr>) =
      getRulesImpactingNode h st"
    using assms by (simp add: fun_eq_iff getRulesImpactingNode_def sheets_loop_skip)
  have children: "querySelectorAll_all (st\<lparr>styleSheets := before @ after\<rparr>) =
      querySelectorAll_all st"
    by (simp add: fun_eq_iff querySelectorAll_all_def forest_def)
  show ?thesis
    unfolding getStylesForTree_def rules children ..
qed

theorem getStylesForTree_skips_absent_rule_list_witness:
  "styleSheets sample_state =
     [CSSStyleSheet (Inr (Some [box_rule, span_rule])) (Inr None)] @
     CSSStyleSheet (Inr None) (Inr None) #
     [CSSStyleSheet (Inr None) (Inr (Some [media_rule, span_rule, font_face_rule]))] \<and>
   no_rule_list (CSSStyleSheet (Inr None) (Inr None)) \<and>
   getStylesForTree sample_host sample_state 4 =
     getStylesForTree sample_host
       (sample_state\<lparr>styleSheets :=
          [CSSStyleSheet (Inr (Some [box_rule, span_rule])) (Inr None)] @
          [CSSStyleSheet (Inr None) (Inr (Some [media_rule, span_rule, font_face_rule]))]\<rparr>) 4 \<and>
   getStylesForTree sample_host sample_state 4 =
     Inr (js (''.box{padding:10px}'' @ ''@media screen{.a{color:red}.b{color:blue}}'' @
              ''span{margin:0}''))"
proof -
  have sheets: "styleSheets sample_state =
     [CSSStyleSheet (Inr (Some [box_rule, span_rule])) (Inr None)] @
     CSSStyleSheet (Inr None) (Inr None) #
     [CSSStyleSheet (Inr None) (Inr (Some [media_rule, span_rule, font_face_rule]))]"
    by (simp add: sample_state_def sample_sheets_def)
  have absent: "no_rule_list (CSSStyleSheet (Inr None) (Inr None))"
    by (simp add: no_rule_list_def sheet_rule_list_def)
  have result: "getStylesForTree sample_host sample_state 4 =
     Inr (js (''.box{padding:10px}'' @ ''@media screen{.a{color:red}.b{color:blue}}'' @
              ''span{margin:0}''))"
    by (simp add: sample_page script_defs)
  from getStylesForTree_skips_absent_rule_list [OF sheets absent, of sample_host 4] sheets absent result
  show ?thesis by simp
qed

text \<open>
  C3 as stated also covers a style sheet whose getter throws. The script has no handler:
  with such a style sheet in front of an accessible one the exception leaves
  \<open>getStylesForTree\<close>, although the accessible style sheet alone gives its rule.
\<close>

theorem getStylesForTree_throwing_sheet_counterexample:
  "getStylesForTree sample_host cross_origin_state 4 = Inl SecurityError \<and>
   getStylesForTree sample_host box_state 4 = Inr (js ''.box{padding:10px}'')"
  by (simp add: sample_page script_defs)

section \<open>The synthesised document\<close>

text \<open>
  C4. \<open>getIframeContentForNode\<close> returns the doctype, the \<open>html\<close> element with
  \<open>lang="en"\<close>, a \<open>head\<close> with one \<open>style\<close> element holding the result of
  \<open>getStylesForTree\<close>, and a \<open>body\<close> holding \<open>node.innerHTML\<close>, and nothing else;
  an exception of the collection is passed on. The witness is the page with the single
  rule \<open>.box{padding:10px}\<close> and the root \<open><div class="box"><span>hi</span></div>\<close>.
\<close>

theorem getIframeContentForNode_document:
  "(getStylesForTree h st node = Inr styles \<and> innerHTML h node = Some inner \<longrightarrow>
      getIframeContentForNode h st node =
        Inr (js ''<!doctype html><html lang=\"en\"><head><style>'' @ styles @
             js ''</style></head><body>'' @ inner @ js ''</body></html>'')) \<and>
   (getStylesForTree h st node = Inl e \<longrightarrow> getIframeContentForNode h st node = Inl e)"
  by (simp add: getIframeContentForNode_def ToString_def js_def)

theorem getIframeContentForNode_document_witness:
  "getStylesForTree sample_host box_state 4 = Inr (js ''.box{padding:10px}'') \<and>
   innerHTML sample_host 4 = Some (js ''<span>hi</span>'') \<and>
   getIframeContentForNode sample_host box_state 4 =
     Inr (js (''<!doctype html><html lang=\"en\"><head><style>'' @ ''.box{padding:10px}'' @
              ''</style></head><body>'' @ ''<span>hi</span>'' @ ''</body></html>''))"
proof -
  have styles: "getStylesForTree sample_host box_state 4 = Inr (js ''.box{padding:10px}'')"
    by (simp add: sample_page script_defs)
  have inner: "innerHTML sample_host 4 = Some (js ''<span>hi</span>'')"
    by (simp add: sample_host_def sample_innerHTML_def)
  from getIframeContentForNode_document
    [of sample_host box_state 4 "js ''.box{padding:10px}''" "js ''<span>hi</span>''" TypeError]
    styles inner
  have "getIframeContentForNode sample_host box_state 4 =
      Inr (js ''<!doctype html><html lang=\"en\"><head><style>'' @ js ''.box{padding:10px}'' @
           js ''</style></head><body>'' @ js ''<span>hi</span>'' @ js ''</body></html>'')"
    by blast
  then have "getIframeContentForNode sample_host box_state 4 =
     Inr (js (''<!doctype html><html lang=\"en\"><head><style>'' @ ''.box{padding:10px}'' @
              ''</style></head><body>'' @ ''<span>hi</span>'' @ ''</body></html>''))"
    by (simp add: js_def)
  with styles inner show ?thesis by blast
qed

section \<open>The data URI\<close>

subsection \<open>Decoding what \<open>encodeURI\<close> wrote\<close>

lemma unat_code_unit: "n < 65536 \<Longrightarrow> unat (of_nat n :: 16 word) = n"
  by (simp add: unat_of_nat)

lemma unat_hex_digit:
  assumes "n < 16"
  shows "unat (hex_digit n) = (if n < 10 then 0x30 + n else 0x41 + (n - 10))"
proof (cases "n < 10")
  case True
  then have "hex_digit n = of_nat (0x30 + n)"
    by (simp only: hex_digit_def if_True)
  moreover from True have "0x30 + n < 65536" by simp
  ultimately show ?thesis
    using True by (simp only: unat_code_unit if_True)
next
  case False
  then have "hex_digit n = of_nat (0x41 + (n - 10))"
    by (simp only: hex_digit_def if_False)
  moreover from assms have "0x41 + (n - 10) < 65536" by simp
  ultimately show ?thesis
    using False by (simp only: unat_code_unit if_False)
qed

lemma hex_value_hex_digit: "n < 16 \<Longrightarrow> hex_value (hex_digit n) = Some n"
  by (auto simp add: hex_value_def unat_hex_digit Let_def)

lemma unescape_escape_octet:
  assumes "b < 256"
  shows "unescape (escape_octet b @ s) = map_option ((#) (Octet b)) (unescape s)"
proof -
  from assms have "b div 16 < 16" and "b mod 16 < 16" by simp_all
  then have "hex_value (hex_digit (b div 16)) = Some (b div 16)"
    and "hex_value (hex_digit (b mod 16)) = Some (b mod 16)"
    by (simp_all add: hex_value_hex_digit)
  then show ?thesis by (simp add: escape_octet_def)
qed

lemma unescape_escape_octets:
  assumes "\<forall>b \<in> set bs. b < 256"
  shows "unescape (escape_octets bs @ s) = map_option ((@) (map Octet bs)) (unescape s)"
  using assms
proof (induction bs)
  case Nil
  show ?case by (simp add: escape_octets_def option.map_ident)
next
  case (Cons b bs)
  then have "unescape (escape_octets bs @ s) = map_option ((@) (map Octet bs)) (unescape s)"
    by simp
  moreover have "escape_octets (b # bs) @ s = escape_octet b @ (escape_octets bs @ s)"
    by (simp add: escape_octets_def)
  ultimately show ?case
    using Cons.prems by (simp add: unescape_escape_octet option.map_comp comp_def)
qed

lemma utf8_octets_bytes:
  assumes "cp < 0x110000"
  shows "\<forall>b \<in> set (utf8_octets cp). b < 256"
  using assms by (auto simp add: utf8_octets_def)

lemma continuation_Octet: "x < 0x40 \<Longrightarrow> continuation (Octet (0x80 + x)) = Some x"
  by (simp add: continuation_def)

lemma split_three: "(cp::nat) div 0x1000 * 0x1000 + cp div 0x40 mod 0x40 * 0x40 + cp mod 0x40 = cp"
proof -
  have "cp div 0x1000 = cp div 0x40 div 0x40" by (simp add: div_mult2_eq)
  then have "cp div 0x1000 * 0x40 + cp div 0x40 mod 0x40 = cp div 0x40" by simp
  then have "(cp div 0x1000 * 0x40 + cp div 0x40 mod 0x40) * 0x40 + cp mod 0x40 = cp" by simp
  then show ?thesis by (simp add: algebra_simps)
qed
lemma split_four: "(cp::nat) div 0x40000 * 0x40000 + cp div 0x1000 mod 0x40 * 0x1000 +
        cp div 0x40 mod 0x40 * 0x40 + cp mod 0x40 = cp"
proof -
  have "cp div 0x40000 = cp div 0x1000 div 0x40" by (simp add: div_mult2_eq)
  then have "cp div 0x40000 * 0x40 + cp div 0x1000 mod 0x40 = cp div 0x1000" by simp
  then have "(cp div 0x40000 * 0x40 + cp div 0x1000 mod 0x40) * 0x1000 +
      cp div 0x40 mod 0x40 * 0x40 + cp mod 0x40 = cp"
    using split_three [of cp] by simp
  then show ?thesis by (simp add: algebra_simps)
qed

lemma decode_utf8_two:
  assumes "a < 0x20" and "x1 < 0x40" and "0x80 \<le> a * 0x40 + x1"
  shows "decode_utf8 (Octet (0xC0 + a) # Octet (0x80 + x1) # ts) =
           map_option ((@) (utf16_units (a * 0x40 + x1))) (decode_utf8 ts)"
  using assms by (simp add: continuation_Octet)

lemma decode_utf8_three:
  assumes "a < 0x10" and "x1 < 0x40" and "x2 < 0x40"
    and "0x800 \<le> a * 0x1000 + x1 * 0x40 + x2"
    and "a * 0x1000 + x1 * 0x40 + x2 < 0xD800 \<or> 0xDFFF < a * 0x1000 + x1 * 0x40 + x2"
  shows "decode_utf8 (Octet (0xE0 + a) # Octet (0x80 + x1) # Octet (0x80 + x2) # ts) =
           map_option ((@) (utf16_units (a * 0x1000 + x1 * 0x40 + x2))) (decode_utf8 ts)"
  using assms by (simp add: continuation_Octet)

lemma decode_utf8_four:
  assumes "a < 8" and "x1 < 0x40" and "x2 < 0x40" and "x3 < 0x40"
    and "0x10000 \<le> a * 0x40000 + x1 * 0x1000 + x2 * 0x40 + x3"
    and "a * 0x40000 + x1 * 0x1000 + x2 * 0x40 + x3 \<le> 0x10FFFF"
  shows "decode_utf8
           (Octet (0xF0 + a) # Octet (0x80 + x1) # Octet (0x80 + x2) # Octet (0x80 + x3) # ts) =
           map_option ((@) (utf16_units (a * 0x40000 + x1 * 0x1000 + x2 * 0x40 + x3)))
             (decode_utf8 ts)"
  using assms by (simp add: continuation_Octet)

lemma decode_utf8_octets:
  assumes "cp < 0x110000" and "cp < 0xD800 \<or> 0xDFFF < cp"
  shows "decode_utf8 (map Octet (utf8_octets cp) @ ts) =
           map_option ((@) (utf16_units cp)) (decode_utf8 ts)"
proof -
  consider "cp < 0x80" | "0x80 \<le> cp" "cp < 0x800" | "0x800 \<le> cp" "cp < 0x10000"
    | "0x10000 \<le> cp"
    by linarith
  then show ?thesis
  proof cases
    case 1
    have "(@) [of_nat cp :: 16 word] = (#) (of_nat cp)"
      by (simp add: fun_eq_iff)
    with 1 show ?thesis by (simp add: utf8_octets_def utf16_units_def)
  next
    case 2
    let ?a = "cp div 0x40" and ?x1 = "cp mod 0x40"
    have cp: "?a * 0x40 + ?x1 = cp" by simp
    have octets: "utf8_octets cp = [0xC0 + ?a, 0x80 + ?x1]"
      using 2 by (simp add: utf8_octets_def)
    have "?a < 0x20" and "?x1 < 0x40" and "0x80 \<le> ?a * 0x40 + ?x1"
      using 2 unfolding cp by simp_all
    from decode_utf8_two [OF this] show ?thesis
      unfolding cp octets by simp
  next
    case 3
    let ?a = "cp div 0x1000" and ?x1 = "cp div 0x40 mod 0x40" and ?x2 = "cp mod 0x40"
    have cp: "?a * 0x1000 + ?x1 * 0x40 + ?x2 = cp" by (rule split_three)
    have octets: "utf8_octets cp = [0xE0 + ?a, 0x80 + ?x1, 0x80 + ?x2]"
      using 3 by (simp add: utf8_octets_def)
    have "?a < 0x10" and "?x1 < 0x40" and "?x2 < 0x40"
      and "0x800 \<le> ?a * 0x1000 + ?x1 * 0x40 + ?x2"
      and "?a * 0x1000 + ?x1 * 0x40 + ?x2 < 0xD800 \<or> 0xDFFF < ?a * 0x1000 + ?x1 * 0x40 + ?x2"
      using 3 assms(2) unfolding cp by simp_all
    from decode_utf8_three [OF this] show ?thesis
      unfolding cp octets by simp
  next
    case 4
    let ?a = "cp div 0x40000" and ?x1 = "cp div 0x1000 mod 0x40"
      and ?x2 = "cp div 0x40 mod 0x40" and ?x3 = "cp mod 0x40"
    have cp: "?a * 0x40000 + ?x1 * 0x1000 + ?x2 * 0x40 + ?x3 = cp" by (rule split_four)
    have octets: "utf8_octets cp = [0xF0 + ?a, 0x80 + ?x1, 0x80 + ?x2, 0x80 + ?x3]"
      using 4 by (simp add: utf8_octets_def)
    have "?a < 8" and "?x1 < 0x40" and "?x2 < 0x40" and "?x3 < 0x40"
      and "0x10000 \<le> ?a * 0x40000 + ?x1 * 0x1000 + ?x2 * 0x40 + ?x3"
      and "?a * 0x40000 + ?x1 * 0x1000 + ?x2 * 0x40 + ?x3 \<le> 0x10FFFF"
      using 4 assms(1) unfolding cp by simp_all
    from decode_utf8_four [OF this] show ?thesis
      unfolding cp octets by simp
  qed
qed

lemma utf16_units_unit:
  "utf16_units (unat (c :: 16 word)) = [c]"
proof -
  have "unat c < 65536" using unsigned_less [of c] by simp
  then show ?thesis by (simp add: utf16_units_def)
qed

lemma utf16_units_pair:
  assumes "is_leading_surrogate c" and "is_trailing_surrogate d"
  shows "utf16_units (code_point c d) = [c, d]"
proof -
  let ?h = "unat c - 0xD800" and ?l = "unat d - 0xDC00"
  from assms have h: "unat c = 0xD800 + ?h" "?h < 0x400"
    and l: "unat d = 0xDC00 + ?l" "?l < 0x400"
    unfolding is_leading_surrogate_def is_trailing_surrogate_def by linarith+
  have cp: "code_point c d = 0x10000 + ?h * 0x400 + ?l"
    by (simp add: code_point_def)
  from l(2) have "(?h * 0x400 + ?l) div 0x400 = ?h" and "(?h * 0x400 + ?l) mod 0x400 = ?l"
    by simp_all
  then have "utf16_units (code_point c d) = [of_nat (0xD800 + ?h), of_nat (0xDC00 + ?l)]"
    unfolding cp utf16_units_def by simp
  also have "\<dots> = [of_nat (unat c), of_nat (unat d)]"
    using h(1) l(1) by simp
  finally show ?thesis by simp
qed

lemma code_point_range:
  assumes "is_leading_surrogate c" and "is_trailing_surrogate d"
  shows "code_point c d < 0x110000" and "0xDFFF < code_point c d"
  using assms
  unfolding code_point_def is_leading_surrogate_def is_trailing_surrogate_def by linarith+

lemma uri_unescaped_not_percent: "uri_unescaped c \<Longrightarrow> c \<noteq> 0x25"
  by (auto simp add: uri_unescaped_def Let_def js_def)

lemma Encode_decodes:
  "Encode s = Inr e \<Longrightarrow> \<exists>ts. unescape e = Some ts \<and> decode_utf8 ts = Some s"
proof (induction s arbitrary: e rule: Encode.induct)
  case 1
  then show ?case by simp
next
  case (2 c cs)
  show ?case
  proof (cases "uri_unescaped c")
    case True
    with "2.prems" obtain r where r: "Encode cs = Inr r" "e = c # r"
      by (auto split: sum.splits)
    from "2.IH"(1) [OF True r(1)] obtain ts
      where "unescape r = Some ts" "decode_utf8 ts = Some cs" by blast
    with r(2) uri_unescaped_not_percent [OF True] show ?thesis by simp
  next
    case False
    note esc = this
    show ?thesis
    proof (cases "is_trailing_surrogate c")
      case True
      with esc "2.prems" show ?thesis by simp
    next
      case notrail: False
      show ?thesis
      proof (cases "is_leading_surrogate c")
        case True
        with esc notrail "2.prems" obtain d ds r where parts: "cs = d # ds"
          "is_trailing_surrogate d" "Encode ds = Inr r"
          "e = escape_octets (utf8_octets (code_point c d)) @ r"
          by (auto split: list.splits if_splits sum.splits)
        from "2.IH"(2) [OF esc notrail True parts(1,2,3)] obtain ts
          where ts: "unescape r = Some ts" "decode_utf8 ts = Some ds" by blast
        let ?cp = "code_point c d"
        have range: "?cp < 0x110000" "?cp < 0xD800 \<or> 0xDFFF < ?cp"
          using code_point_range [OF True parts(2)] by simp_all
        have "unescape e = Some (map Octet (utf8_octets ?cp) @ ts)"
          unfolding parts(4)
          by (simp add: unescape_escape_octets [OF utf8_octets_bytes [OF range(1)]] ts(1))
        moreover have "decode_utf8 (map Octet (utf8_octets ?cp) @ ts) = Some (c # cs)"
          by (simp add: decode_utf8_octets [OF range] ts(2)
              utf16_units_pair [OF True parts(2)] parts(1))
        ultimately show ?thesis by blast
      next
        case False
        with esc notrail "2.prems" obtain r where parts: "Encode cs = Inr r"
          "e = escape_octets (utf8_octets (unat c)) @ r"
          by (auto split: sum.splits)
        from "2.IH"(3) [OF esc notrail False parts(1)] obtain ts
          where ts: "unescape r = Some ts" "decode_utf8 ts = Some cs" by blast
        let ?cp = "unat c"
        have "?cp < 65536" using unsigned_less [of c] by simp
        then have range: "?cp < 0x110000" "?cp < 0xD800 \<or> 0xDFFF < ?cp"
          using notrail False
          by (auto simp add: is_leading_surrogate_def is_trailing_surrogate_def)
        have "unescape e = Some (map Octet (utf8_octets ?cp) @ ts)"
          unfolding parts(2)
          by (simp add: unescape_escape_octets [OF utf8_octets_bytes [OF range(1)]] ts(1))
        moreover have "decode_utf8 (map Octet (utf8_octets ?cp) @ ts) = Some (c # cs)"
          by (simp add: decode_utf8_octets [OF range] ts(2) utf16_units_unit)
        ultimately show ?thesis by blast
      qed
    qed
  qed
qed

lemma percent_decode_encodeURI:
  "encodeURI s = Inr e \<Longrightarrow> percent_decode e = Some s"
  using Encode_decodes [of s e] by (auto simp add: encodeURI_def percent_decode_def)

section \<open>A call of \<open>iframify\<close>\<close>

subsection \<open>The states that a call passes through\<close>

lemma uri_unescaped_no_surrogate:
  "uri_unescaped c \<Longrightarrow> \<not> is_leading_surrogate c \<and> \<not> is_trailing_surrogate c"
  by (auto simp add: uri_unescaped_def is_leading_surrogate_def is_trailing_surrogate_def
      Let_def js_def)

lemma Encode_well_formed:
  "well_formed_utf16 s \<Longrightarrow> \<exists>e. Encode s = Inr e"
proof (induction s rule: well_formed_utf16.induct)
  case 1
  show ?case by simp
next
  case (2 c cs)
  show ?case
  proof (cases "is_leading_surrogate c")
    case True
    with "2.prems" obtain d ds where parts: "cs = d # ds" "is_trailing_surrogate d"
      "well_formed_utf16 ds"
      by (auto split: list.splits)
    from "2.IH"(1) [OF True parts(1) parts(3)] obtain e where "Encode ds = Inr e" by blast
    moreover from True have "\<not> uri_unescaped c" "\<not> is_trailing_surrogate c"
      using uri_unescaped_no_surrogate [of c]
      by (auto simp add: is_leading_surrogate_def is_trailing_surrogate_def)
    ultimately show ?thesis using True parts(1,2) by simp
  next
    case False
    with "2.prems" have rest: "\<not> is_trailing_surrogate c" "well_formed_utf16 cs" by simp_all
    from "2.IH"(2) [OF False rest(2)] obtain e where "Encode cs = Inr e" by blast
    with False rest(1) show ?thesis by simp
  qed
qed

lemma find_in_append:
  "find_in x (ns @ ms) = (case find_in x ns of Some n \<Rightarrow> Some n | None \<Rightarrow> find_in x ms)"
  by (induction ns) (simp_all split: option.splits)

lemma querySelectorAll_all_createElement:
  assumes "querySelectorAll_all st node = Inr children"
  shows "querySelectorAll_all (snd (createElement st)) node = Inr children"
proof -
  from assms obtain n where "find_in node (forest st) = Some n"
    by (auto simp add: querySelectorAll_all_def split: option.splits)
  moreover have "forest (snd (createElement st)) =
      forest st @ [Node (fresh_ref st) ELEMENT_NODE []]"
    by (simp add: createElement_def forest_def Let_def)
  ultimately have "find_in node (forest (snd (createElement st))) = find_in node (forest st)"
    by (simp add: find_in_append)
  with assms show ?thesis by (simp add: querySelectorAll_all_def)
qed

lemma getRulesImpactingNode_sheets:
  "styleSheets st' = styleSheets st \<Longrightarrow>
     getRulesImpactingNode h st' = getRulesImpactingNode h st"
  by (simp add: fun_eq_iff getRulesImpactingNode_def)

lemma getIframeContentForNode_createElement:
  assumes "getIframeContentForNode h st node = Inr html"
  shows "getIframeContentForNode h (snd (createElement st)) node = Inr html"
proof -
  let ?st1 = "snd (createElement st)"
  from assms obtain children where children: "querySelectorAll_all st node = Inr children"
    by (auto simp add: getIframeContentForNode_def getStylesForTree_def split: sum.splits)
  have sheets: "styleSheets ?st1 = styleSheets st"
    by (simp add: createElement_def Let_def)
  have "getStylesForTree h ?st1 node = getStylesForTree h st node"
    unfolding getStylesForTree_def getRulesImpactingNode_sheets [OF sheets]
      querySelectorAll_all_createElement [OF children] children ..
  with assms show ?thesis by (simp add: getIframeContentForNode_def)
qed

lemma parent_in_append:
  "parent_in x (ns @ ms) = (case parent_in x ns of Some p \<Rightarrow> Some p | None \<Rightarrow> parent_in x ms)"
  by (induction ns) (simp_all split: option.splits)

lemma find_in_refs:
  "find_node x n = Some m \<Longrightarrow> x \<in> set (refs n)"
  "find_in x ns = Some m \<Longrightarrow> x \<in> set (forest_refs ns)"
  by (induction x n and x ns rule: find_node_find_in.induct)
    (auto simp add: forest_refs_def split: if_splits option.splits)

lemma find_in_member:
  "x \<in> set (refs n) \<Longrightarrow> \<exists>m. find_node x n = Some m"
  "x \<in> set (forest_refs ns) \<Longrightarrow> \<exists>m. find_in x ns = Some m"
  by (induction x n and x ns rule: find_node_find_in.induct)
    (auto simp add: forest_refs_def split: if_splits option.splits)

lemma ident_in_refs: "ident n \<in> set (refs n)"
  by (cases n) simp

lemma parent_in_refs:
  "parent_node x n = Some p \<Longrightarrow> x \<in> set (refs n)"
  "parent_in x ns = Some p \<Longrightarrow> x \<in> set (forest_refs ns)"
proof (induction x n and x ns rule: parent_node_parent_in.induct)
  case (1 x r t cs)
  show ?case
  proof (cases "x \<in> set (map ident cs)")
    case True
    then obtain c where "c \<in> set cs" "ident c = x" by auto
    with ident_in_refs [of c] show ?thesis by auto
  next
    case False
    with 1 show ?thesis by (auto simp add: forest_refs_def)
  qed
next
  case (2 x)
  then show ?case by simp
next
  case (3 x n ns)
  then show ?case by (auto simp add: forest_refs_def split: option.splits)
qed

lemma fold_max_ge: "x \<in> set xs \<Longrightarrow> x \<le> fold max xs (a::nat)"
proof (induction xs arbitrary: a)
  case Nil
  then show ?case by simp
next
  case (Cons y ys)
  have mono: "a \<le> fold max ys a" for a :: nat
    by (induction ys arbitrary: a) (auto intro: order_trans [OF max.cobounded2])
  from Cons show ?case
  proof (cases "x = y")
    case True
    with mono [of "max y a"] show ?thesis by simp
  next
    case False
    with Cons show ?thesis by simp
  qed
qed

lemma fresh_ref_fresh: "fresh_ref st \<notin> set (forest_refs (forest st))"
proof
  assume "fresh_ref st \<in> set (forest_refs (forest st))"
  then have "fresh_ref st \<le> fold max (forest_refs (forest st)) 0"
    by (rule fold_max_ge)
  then show False by (simp add: fresh_ref_def)
qed

lemma parentNode_found:
  assumes "parentNode st node = Some parent"
  shows "\<exists>oldn. find_in node (forest st) = Some oldn"
  using assms parent_in_refs(2) find_in_member(2) unfolding parentNode_def by blast

lemma fresh_ref_not_found: "find_in (fresh_ref st) (forest st) = None"
  using find_in_refs(2) [of "fresh_ref st" "forest st"] fresh_ref_fresh [of st]
  by (cases "find_in (fresh_ref st) (forest st)") auto

lemma fresh_ref_not_root:
  "t \<in> set (forest st) \<Longrightarrow> ident t \<noteq> fresh_ref st"
proof
  assume t: "t \<in> set (forest st)" and eq: "ident t = fresh_ref st"
  from t ident_in_refs [of t] have "ident t \<in> set (forest_refs (forest st))"
    by (auto simp add: forest_refs_def)
  with eq fresh_ref_fresh [of st] show False by simp
qed

lemma forest_createElement:
  "forest (snd (createElement st)) = forest st @ [Node (fresh_ref st) ELEMENT_NODE []]"
  by (simp add: createElement_def forest_def Let_def)

lemma forest_set_property [simp]: "forest (set_property h st r name v) = forest st"
  by (simp add: set_property_def forest_def)

lemma has_property_set_property:
  "has_property h (set_property h st r name v) r name"
  by (simp add: has_property_def set_property_def)

lemma has_property_kept:
  "has_property h st r name \<Longrightarrow> has_property h (set_property h st r' name' v) r name"
  by (auto simp add: has_property_def set_property_def)

lemma has_property_replaceChild [simp]:
  "has_property h (replaceChild st p new old) r name = has_property h st r name"
  by (simp add: has_property_def replaceChild_def split: option.splits)

lemma replaceChild_created:
  assumes "find_in node (forest st) = Some oldn"
    and "forest st3 = forest st @ [Node (fresh_ref st) ELEMENT_NODE []]"
  shows "replaceChild st3 parent (fresh_ref st) node =
           st3\<lparr>document := replace_in parent (Node (fresh_ref st) ELEMENT_NODE []) node (document st),
               detached :=
                 map (replace_in parent (Node (fresh_ref st) ELEMENT_NODE []) node) (detached st) @
                 [oldn],
               trace := trace st3 @ [ReplaceChild parent (fresh_ref st) node]\<rparr>"
proof -
  let ?new = "Node (fresh_ref st) ELEMENT_NODE []"
  from assms(2) have doc: "document st3 = document st"
    and det: "detached st3 = detached st @ [?new]"
    by (simp_all add: forest_def)
  have new: "find_in (fresh_ref st) (forest st3) = Some ?new"
    by (simp add: assms(2) find_in_append fresh_ref_not_found)
  have old: "find_in node (forest st3) = Some oldn"
    by (simp add: assms find_in_append)
  have "\<forall>t \<in> set (detached st). ident t \<noteq> fresh_ref st"
    using fresh_ref_not_root [of _ st] by (simp add: forest_def)
  then have "filter (\<lambda>t. ident t \<noteq> fresh_ref st) (detached st3) = detached st"
    by (simp add: det filter_id_conv)
  then show ?thesis
    by (simp add: replaceChild_def new old doc)
qed

lemma iframify_run:
  assumes "getIframeContentForNode h st node = Inr html"
    and "encodeURI html = Inr encoded"
    and "parentNode st node = Some parent"
  shows "iframify h st node =
     (Inr (),
      setTimeout
        (replaceChild
           (set_property h
              (set_property h (snd (createElement st)) (fresh_ref st) ''srcdoc'' html)
              (fresh_ref st) ''src'' (js ''data:text/html;charset=utf-8,'' @ encoded))
           parent (fresh_ref st) node)
        (MeasureHeight (fresh_ref st)) 500)"
proof -
  define st1 where "st1 = snd (createElement st)"
  define st2 where "st2 = set_property h st1 (fresh_ref st) ''srcdoc'' html"
  define st3 where
    "st3 = set_property h st2 (fresh_ref st) ''src'' (js ''data:text/html;charset=utf-8,'' @ encoded)"
  have created: "createElement st = (fresh_ref st, st1)"
    by (simp add: st1_def createElement_def Let_def)
  have html: "getIframeContentForNode h st1 node = Inr html"
    unfolding st1_def using assms(1) by (rule getIframeContentForNode_createElement)
  have parent: "parentNode st3 node = Some parent"
    using assms(3)
    by (simp add: st3_def st2_def st1_def parentNode_def forest_createElement parent_in_append)
  have check: "has_property h st3 (fresh_ref st) ''srcdoc''"
    by (simp add: st3_def st2_def has_property_set_property has_property_kept)
  have "iframify h st node =
      (Inr (), setTimeout (replaceChild st3 parent (fresh_ref st) node) (MeasureHeight (fresh_ref st)) 500)"
    by (simp add: iframify_def created html assms(2) Let_def parent check
        flip: st2_def st3_def)
  then show ?thesis
    by (simp add: st3_def st2_def st1_def)
qed


lemma trace_createElement: "trace (snd (createElement st)) = trace st @ [CreateElement (fresh_ref st)]"
  by (simp add: createElement_def Let_def)

lemma trace_set_property: "trace (set_property h st r name v) = trace st @ [SetProperty r name v]"
  by (simp add: set_property_def)

lemma trace_setTimeout: "trace (setTimeout st cb d) = trace st @ [SetTimeout cb d]"
  by (simp add: setTimeout_def)

lemma timers_setTimeout: "timers (setTimeout st cb d) = timers st @ [(cb, d)]"
  by (simp add: setTimeout_def)

lemma timers_set_property [simp]: "timers (set_property h st r name v) = timers st"
  by (simp add: set_property_def)

lemma timers_createElement [simp]: "timers (snd (createElement st)) = timers st"
  by (simp add: createElement_def Let_def)

lemma timers_replaceChild [simp]: "timers (replaceChild st p new old) = timers st"
  by (simp add: replaceChild_def split: option.splits)

lemma get_property_replaceChild [simp]:
  "get_property h (replaceChild st p new old) r name = get_property h st r name"
  by (simp add: get_property_def replaceChild_def split: option.splits)

lemma get_property_setTimeout [simp]:
  "get_property h (setTimeout st cb d) r name = get_property h st r name"
  by (simp add: get_property_def setTimeout_def)

lemma has_property_setTimeout [simp]:
  "has_property h (setTimeout st cb d) r name = has_property h st r name"
  by (simp add: has_property_def setTimeout_def)

lemma get_property_set_property:
  "get_property h (set_property h st r name v) r' name' =
     (if r' = r \<and> name' = name then Some v else get_property h st r' name')"
  by (simp add: get_property_def set_property_def)

lemma trace_replaceChild_created:
  assumes "parentNode st node = Some parent"
    and "forest st3 = forest st @ [Node (fresh_ref st) ELEMENT_NODE []]"
  shows "trace (replaceChild st3 parent (fresh_ref st) node) =
           trace st3 @ [ReplaceChild parent (fresh_ref st) node]"
proof -
  from parentNode_found [OF assms(1)] obtain oldn
    where "find_in node (forest st) = Some oldn" by blast
  from replaceChild_created [OF this assms(2)] show ?thesis by simp
qed

lemma iframify_no_parent:
  assumes "getIframeContentForNode h st node = Inr html"
    and "encodeURI html = Inr encoded"
    and "parentNode st node = None"
  shows "iframify h st node =
     (Inl TypeError,
      set_property h
        (set_property h (snd (createElement st)) (fresh_ref st) ''srcdoc'' html)
        (fresh_ref st) ''src'' (js ''data:text/html;charset=utf-8,'' @ encoded))"
proof -
  define st1 where "st1 = snd (createElement st)"
  define st2 where "st2 = set_property h st1 (fresh_ref st) ''srcdoc'' html"
  define st3 where
    "st3 = set_property h st2 (fresh_ref st) ''src'' (js ''data:text/html;charset=utf-8,'' @ encoded)"
  have created: "createElement st = (fresh_ref st, st1)"
    by (simp add: st1_def createElement_def Let_def)
  have html: "getIframeContentForNode h st1 node = Inr html"
    unfolding st1_def using assms(1) by (rule getIframeContentForNode_createElement)
  have parent: "parentNode st3 node = None"
    using assms(3)
    by (simp add: st3_def st2_def st1_def parentNode_def forest_createElement parent_in_append)
  have "iframify h st node = (Inl TypeError, st3)"
    by (simp add: iframify_def created html assms(2) Let_def parent flip: st2_def st3_def)
  then show ?thesis
    by (simp add: st3_def st2_def st1_def)
qed


lemma iframify_encode_fails:
  assumes "getIframeContentForNode h st node = Inr html"
    and "encodeURI html = Inl e"
  shows "iframify h st node =
           (Inl e, set_property h (snd (createElement st)) (fresh_ref st) ''srcdoc'' html)"
proof -
  define st1 where "st1 = snd (createElement st)"
  have created: "createElement st = (fresh_ref st, st1)"
    by (simp add: st1_def createElement_def Let_def)
  have html: "getIframeContentForNode h st1 node = Inr html"
    unfolding st1_def using assms(1) by (rule getIframeContentForNode_createElement)
  show ?thesis
    by (simp add: iframify_def created html assms(2) Let_def flip: st1_def)
qed

lemma iframify_timers:
  assumes "getIframeContentForNode h st node = Inr html"
    and "encodeURI html = Inr encoded"
    and "parentNode st node = Some parent"
  shows "timers (snd (iframify h st node)) = timers st @ [(MeasureHeight (fresh_ref st), 500)]"
  by (simp add: iframify_run [OF assms] timers_setTimeout)

lemma iframify_src:
  assumes "getIframeContentForNode h st node = Inr html"
    and "encodeURI html = Inr encoded"
  shows "get_property h (snd (iframify h st node)) (fresh_ref st) ''src'' =
           Some (js ''data:text/html;charset=utf-8,'' @ encoded)"
proof (cases "parentNode st node")
  case None
  from iframify_no_parent [OF assms None] show ?thesis
    by (simp add: get_property_set_property)
next
  case (Some parent)
  from iframify_run [OF assms Some] show ?thesis
    by (simp add: get_property_set_property)
qed

lemma Math_max_Max: "Math_max a b c d e = Max {a, b, c, d, e}"
  by (simp add: Math_max_def)

lemma run_callback_height:
  assumes "contentWindow_document h r = Inr doc"
    and "body doc = Some b" and "documentElement doc = Some root"
  shows "run_callback h st (MeasureHeight r) =
           (Inr (),
            set_property h st r ''height''
              (number_to_string
                 (Math_max (scrollHeight b) (offsetHeight b)
                    (clientHeight root) (scrollHeight root) (offsetHeight root)) @
               js ''px''))"
  using assms by simp

lemma timers_run_callback: "timers (snd (run_callback h st cb)) = timers st"
  by (cases cb) (simp split: sum.splits option.splits)

lemma timers_run_timer: "timers (snd (run_timer h st)) = tl (timers st)"
  by (simp add: run_timer_def timers_run_callback split: list.splits prod.splits)

lemma iframify_timers_cases:
  "timers (snd (iframify h st node)) = timers st \<or>
   timers (snd (iframify h st node)) = timers st @ [(MeasureHeight (fresh_ref st), 500)]"
proof -
  define st1 where "st1 = snd (createElement st)"
  have created: "createElement st = (fresh_ref st, st1)"
    by (simp add: st1_def createElement_def Let_def)
  have "timers st1 = timers st"
    by (simp add: st1_def)
  then show ?thesis
    by (simp add: iframify_def created Let_def timers_setTimeout
        split: sum.splits option.splits)
qed

lemma iframify_synthesis_fails:
  assumes "getIframeContentForNode h (snd (createElement st)) node = Inl e"
  shows "iframify h st node = (Inl e, snd (createElement st))"
proof -
  define st1 where "st1 = snd (createElement st)"
  have created: "createElement st = (fresh_ref st, st1)"
    by (simp add: st1_def createElement_def Let_def)
  from assms show ?thesis
    by (simp add: iframify_def created flip: st1_def)
qed


subsection \<open>The sample page\<close>

lemma box_page:
  "fresh_ref box_state = 10"
  "parentNode box_state 4 = Some 2"
  "getIframeContentForNode sample_host box_state 4 = Inr box_html"
  "getIframeContentForNode legacy_host box_state 4 = Inr box_html"
  by (simp_all add: fresh_ref_def forest_refs_def parentNode_def getIframeContentForNode_def
      ToString_def box_html_def legacy_host_def sample_page script_defs)

lemma box_html_encoded: "encodeURI box_html = Inr box_encoded"
  by (simp add: encodeURI_def box_html_def box_encoded_def js_def uri_unescaped_def
      is_leading_surrogate_def is_trailing_surrogate_def escape_octets_def escape_octet_def
      utf8_octets_def hex_digit_def)

lemma box_html_well_formed: "well_formed_utf16 box_html"
  by (simp add: box_html_def js_def is_leading_surrogate_def is_trailing_surrogate_def)


lemma box_tree:
  "distinct (forest_refs (forest box_state))"
  "find_in 4 (forest box_state) =
     Some (Node 4 ELEMENT_NODE [Node 5 ELEMENT_NODE [Node 6 TEXT_NODE []]])"
  "children_of box_state 2 = [3, 4, 7, 9]"
  "previousSibling box_state 4 = Some 3"
  "nextSibling box_state 4 = Some 7"
  "trace box_state = []"
  by (simp_all add: forest_refs_def forest_def children_of_def previousSibling_def
      nextSibling_def parentNode_def box_state_def sample_state_def sample_tree_def)

lemma orphan_page:
  "fresh_ref orphan_state = 11"
  "trace orphan_state = []"
  "parentNode orphan_state 10 = None"
  "getIframeContentForNode sample_host orphan_state 10 = Inr orphan_html"
  "encodeURI orphan_html = Inr orphan_encoded"
  by (simp_all add: fresh_ref_def forest_refs_def parentNode_def getIframeContentForNode_def
      ToString_def orphan_state_def orphan_html_def orphan_encoded_def sample_page script_defs
      encodeURI_def uri_unescaped_def is_leading_surrogate_def is_trailing_surrogate_def
      escape_octets_def escape_octet_def utf8_octets_def hex_digit_def)

lemma surrogate_page:
  "getIframeContentForNode surrogate_host box_state 4 = Inr surrogate_html"
  "encodeURI surrogate_html = Inl URIError"
  by (simp_all add: getIframeContentForNode_def ToString_def surrogate_host_def surrogate_html_def
      sample_page script_defs encodeURI_def uri_unescaped_def is_leading_surrogate_def
      is_trailing_surrogate_def)

lemma cross_origin_page:
  "fresh_ref cross_origin_state = 10"
  "trace cross_origin_state = []"
  "getIframeContentForNode sample_host (snd (createElement cross_origin_state)) 4 =
     Inl SecurityError"
  by (simp_all add: fresh_ref_def forest_refs_def createElement_def Let_def
      getIframeContentForNode_def sample_page script_defs)

lemma rendered_height:
  "number_to_string (Max {96, 100, 150, 120, 118}) @ js ''px'' = js ''150px''"
proof -
  have "decimal_digits 1 = js ''1''"
    by (subst decimal_digits.simps) (simp add: js_def)
  then have "decimal_digits 15 = js ''15''"
    by (subst decimal_digits.simps) (simp add: js_def)
  then have "decimal_digits 150 = js ''150''"
    by (subst decimal_digits.simps) (simp add: js_def)
  then show ?thesis by (simp add: number_to_string_def js_def)
qed

subsection \<open>The order of the effects\<close>

text \<open>
  C9. On every call that gets as far as the assignments, \<open>iframe.srcdoc\<close> is assigned the
  synthesised document first, with no test before it, \<open>iframe.src\<close> is assigned the data
  URI next, and the node is replaced after both: the effects are the creation, the two
  assignments and the replacement in this order, followed by the timer exactly when
  \<open>'srcdoc' in iframe\<close> holds at that point. For a node without a parent the two
  assignments still happen, and the call ends in the \<open>TypeError\<close> of the null parent.
  A call that ends earlier has assigned \<open>srcdoc\<close> alone (when \<open>encodeURI\<close> throws) or
  nothing (when the synthesis throws), and has replaced nothing.
\<close>

theorem iframify_order_of_effects:
  "(getIframeContentForNode h st node = Inr html \<and> encodeURI html = Inr encoded \<and>
      parentNode st node = Some parent \<longrightarrow>
      fst (iframify h st node) = Inr () \<and>
      trace (snd (iframify h st node)) =
        trace st @
        [CreateElement (fresh_ref st),
         SetProperty (fresh_ref st) ''srcdoc'' html,
         SetProperty (fresh_ref st) ''src'' (js ''data:text/html;charset=utf-8,'' @ encoded),
         ReplaceChild parent (fresh_ref st) node] @
        (if has_property h (snd (iframify h st node)) (fresh_ref st) ''srcdoc''
         then [SetTimeout (MeasureHeight (fresh_ref st)) 500] else []) \<and>
      get_property h (snd (iframify h st node)) (fresh_ref st) ''srcdoc'' = Some html \<and>
      get_property h (snd (iframify h st node)) (fresh_ref st) ''src'' =
        Some (js ''data:text/html;charset=utf-8,'' @ encoded)) \<and>
   (getIframeContentForNode h st node = Inr html \<and> encodeURI html = Inr encoded \<and>
      parentNode st node = None \<longrightarrow>
      fst (iframify h st node) = Inl TypeError \<and>
      trace (snd (iframify h st node)) =
        trace st @
        [CreateElement (fresh_ref st),
         SetProperty (fresh_ref st) ''srcdoc'' html,
         SetProperty (fresh_ref st) ''src'' (js ''data:text/html;charset=utf-8,'' @ encoded)]) \<and>
   (getIframeContentForNode h st node = Inr html \<and> encodeURI html = Inl e \<longrightarrow>
      fst (iframify h st node) = Inl e \<and>
      trace (snd (iframify h st node)) =
        trace st @
        [CreateElement (fresh_ref st), SetProperty (fresh_ref st) ''srcdoc'' html]) \<and>
   (getIframeContentForNode h (snd (createElement st)) node = Inl e \<longrightarrow>
      fst (iframify h st node) = Inl e \<and>
      trace (snd (iframify h st node)) = trace st @ [CreateElement (fresh_ref st)])"
proof (intro conjI impI)
  assume run: "getIframeContentForNode h st node = Inr html \<and> encodeURI html = Inr encoded \<and>
      parentNode st node = Some parent"
  then have parent: "parentNode st node = Some parent" by simp
  note result = iframify_run [of h st node html encoded parent]
  from run result show "fst (iframify h st node) = Inr ()" by simp
  have check: "has_property h (snd (iframify h st node)) (fresh_ref st) ''srcdoc''"
    using run result by (simp add: has_property_set_property has_property_kept)
  from run result show "trace (snd (iframify h st node)) =
        trace st @
        [CreateElement (fresh_ref st),
         SetProperty (fresh_ref st) ''srcdoc'' html,
         SetProperty (fresh_ref st) ''src'' (js ''data:text/html;charset=utf-8,'' @ encoded),
         ReplaceChild parent (fresh_ref st) node] @
        (if has_property h (snd (iframify h st node)) (fresh_ref st) ''srcdoc''
         then [SetTimeout (MeasureHeight (fresh_ref st)) 500] else [])"
    unfolding if_P [OF check]
    by (simp add: trace_setTimeout trace_replaceChild_created [OF parent] forest_createElement
        trace_set_property trace_createElement)
  from run result show "get_property h (snd (iframify h st node)) (fresh_ref st) ''srcdoc'' = Some html"
    by (simp add: get_property_set_property)
  from run result show "get_property h (snd (iframify h st node)) (fresh_ref st) ''src'' =
        Some (js ''data:text/html;charset=utf-8,'' @ encoded)"
    by (simp add: get_property_set_property)
next
  assume run: "getIframeContentForNode h st node = Inr html \<and> encodeURI html = Inr encoded \<and>
      parentNode st node = None"
  note result = iframify_no_parent [of h st node html encoded]
  from run result show "fst (iframify h st node) = Inl TypeError" by simp
  from run result show "trace (snd (iframify h st node)) =
        trace st @
        [CreateElement (fresh_ref st),
         SetProperty (fresh_ref st) ''srcdoc'' html,
         SetProperty (fresh_ref st) ''src'' (js ''data:text/html;charset=utf-8,'' @ encoded)]"
    by (simp add: trace_set_property trace_createElement)
next
  assume run: "getIframeContentForNode h st node = Inr html \<and> encodeURI html = Inl e"
  note result = iframify_encode_fails [of h st node html e]
  from run result show "fst (iframify h st node) = Inl e" by simp
  from run result show "trace (snd (iframify h st node)) =
        trace st @
        [CreateElement (fresh_ref st), SetProperty (fresh_ref st) ''srcdoc'' html]"
    by (simp add: trace_set_property trace_createElement)
next
  assume run: "getIframeContentForNode h (snd (createElement st)) node = Inl e"
  note result = iframify_synthesis_fails [OF run]
  from result show "fst (iframify h st node) = Inl e" by simp
  from result show "trace (snd (iframify h st node)) = trace st @ [CreateElement (fresh_ref st)]"
    by (simp add: trace_createElement)
qed

theorem iframify_order_of_effects_witness:
  "getIframeContentForNode legacy_host box_state 4 = Inr box_html \<and>
   encodeURI box_html = Inr box_encoded \<and>
   parentNode box_state 4 = Some 2 \<and>
   trace (snd (iframify legacy_host box_state 4)) =
     [CreateElement 10,
      SetProperty 10 ''srcdoc'' box_html,
      SetProperty 10 ''src'' (js ''data:text/html;charset=utf-8,'' @ box_encoded),
      ReplaceChild 2 10 4,
      SetTimeout (MeasureHeight 10) 500] \<and>
   get_property legacy_host (snd (iframify legacy_host box_state 4)) 10 ''srcdoc'' =
     Some box_html \<and>
   getIframeContentForNode sample_host orphan_state 10 = Inr orphan_html \<and>
   encodeURI orphan_html = Inr orphan_encoded \<and>
   parentNode orphan_state 10 = None \<and>
   fst (iframify sample_host orphan_state 10) = Inl TypeError \<and>
   trace (snd (iframify sample_host orphan_state 10)) =
     [CreateElement 11,
      SetProperty 11 ''srcdoc'' orphan_html,
      SetProperty 11 ''src'' (js ''data:text/html;charset=utf-8,'' @ orphan_encoded)] \<and>
   encodeURI surrogate_html = Inl URIError \<and>
   fst (iframify surrogate_host box_state 4) = Inl URIError \<and>
   trace (snd (iframify surrogate_host box_state 4)) =
     [CreateElement 10, SetProperty 10 ''srcdoc'' surrogate_html] \<and>
   getIframeContentForNode sample_host (snd (createElement cross_origin_state)) 4 =
     Inl SecurityError \<and>
   fst (iframify sample_host cross_origin_state 4) = Inl SecurityError \<and>
   trace (snd (iframify sample_host cross_origin_state 4)) = [CreateElement 10]"
proof -
  let ?s = "snd (iframify legacy_host box_state 4)"
  have check: "has_property legacy_host ?s 10 ''srcdoc''"
    by (simp add: iframify_run [OF box_page(4) box_html_encoded box_page(2)] box_page(1)
        has_property_set_property has_property_kept)
  from iframify_order_of_effects [of legacy_host box_state 4 box_html box_encoded 2 TypeError]
    box_page(2,4) box_html_encoded
  have "trace ?s =
      trace box_state @
      [CreateElement (fresh_ref box_state),
       SetProperty (fresh_ref box_state) ''srcdoc'' box_html,
       SetProperty (fresh_ref box_state) ''src'' (js ''data:text/html;charset=utf-8,'' @ box_encoded),
       ReplaceChild 2 (fresh_ref box_state) 4] @
      (if has_property legacy_host ?s (fresh_ref box_state) ''srcdoc''
       then [SetTimeout (MeasureHeight (fresh_ref box_state)) 500] else [])"
    and "get_property legacy_host ?s (fresh_ref box_state) ''srcdoc'' = Some box_html"
    by blast+
  then have with_parent: "trace ?s =
      [CreateElement 10,
       SetProperty 10 ''srcdoc'' box_html,
       SetProperty 10 ''src'' (js ''data:text/html;charset=utf-8,'' @ box_encoded),
       ReplaceChild 2 10 4,
       SetTimeout (MeasureHeight 10) 500]"
    and srcdoc: "get_property legacy_host ?s 10 ''srcdoc'' = Some box_html"
    using check by (simp_all add: box_page(1) box_tree(6))
  from iframify_order_of_effects [of sample_host orphan_state 10 orphan_html orphan_encoded 2 TypeError]
    orphan_page(3,4,5)
  have "fst (iframify sample_host orphan_state 10) = Inl TypeError \<and>
    trace (snd (iframify sample_host orphan_state 10)) =
      trace orphan_state @
      [CreateElement (fresh_ref orphan_state),
       SetProperty (fresh_ref orphan_state) ''srcdoc'' orphan_html,
       SetProperty (fresh_ref orphan_state) ''src''
         (js ''data:text/html;charset=utf-8,'' @ orphan_encoded)]"
    by blast
  then have without_parent: "fst (iframify sample_host orphan_state 10) = Inl TypeError"
    "trace (snd (iframify sample_host orphan_state 10)) =
      [CreateElement 11,
       SetProperty 11 ''srcdoc'' orphan_html,
       SetProperty 11 ''src'' (js ''data:text/html;charset=utf-8,'' @ orphan_encoded)]"
    by (simp_all add: orphan_page(1,2))
  from iframify_order_of_effects [of surrogate_host box_state 4 surrogate_html _ _ URIError]
    surrogate_page
  have unencoded: "fst (iframify surrogate_host box_state 4) = Inl URIError"
    "trace (snd (iframify surrogate_host box_state 4)) =
      [CreateElement 10, SetProperty 10 ''srcdoc'' surrogate_html]"
    by (simp_all add: box_page(1) box_tree(6))
  from iframify_order_of_effects [of sample_host cross_origin_state 4 _ _ _ SecurityError]
    cross_origin_page(3)
  have unsynthesised: "fst (iframify sample_host cross_origin_state 4) = Inl SecurityError"
    "trace (snd (iframify sample_host cross_origin_state 4)) = [CreateElement 10]"
    by (simp_all add: cross_origin_page(1,2))
  from box_page(2,4) box_html_encoded with_parent srcdoc orphan_page(3,4,5) without_parent
    surrogate_page(2) unencoded cross_origin_page(3) unsynthesised
  show ?thesis by blast
qed

subsection \<open>The source of the frame\<close>

text \<open>
  C6, as the script has it. When the document is synthesised and every surrogate in it has
  its partner, the call leaves \<open>data:text/html;charset=utf-8,\<close> followed by the encoded
  document in the \<open>src\<close> of the frame, whatever the host says of \<open>srcdoc\<close>, and
  percent-decoding the encoded part gives the document back.
\<close>

theorem iframify_sets_data_uri:
  assumes "getIframeContentForNode h st node = Inr html" and "well_formed_utf16 html"
  shows "\<exists>encoded.
           encodeURI html = Inr encoded \<and>
           get_property h (snd (iframify h st node)) (fresh_ref st) ''src'' =
             Some (js ''data:text/html;charset=utf-8,'' @ encoded) \<and>
           percent_decode encoded = Some html"
proof -
  from Encode_well_formed [OF assms(2)] obtain encoded
    where encoded: "encodeURI html = Inr encoded"
    by (auto simp add: encodeURI_def)
  from iframify_src [OF assms(1) encoded] percent_decode_encodeURI [OF encoded] encoded
  show ?thesis by blast
qed

theorem iframify_sets_data_uri_witness:
  "getIframeContentForNode legacy_host box_state 4 = Inr box_html \<and>
   getIframeContentForNode sample_host box_state 4 = Inr box_html \<and>
   well_formed_utf16 box_html \<and>
   encodeURI box_html = Inr box_encoded \<and>
   get_property legacy_host (snd (iframify legacy_host box_state 4)) 10 ''src'' =
     Some (js ''data:text/html;charset=utf-8,'' @ box_encoded) \<and>
   get_property sample_host (snd (iframify sample_host box_state 4)) 10 ''src'' =
     Some (js ''data:text/html;charset=utf-8,'' @ box_encoded) \<and>
   percent_decode box_encoded = Some box_html"
proof -
  from iframify_sets_data_uri [OF box_page(4) box_html_well_formed]
  have legacy: "get_property legacy_host (snd (iframify legacy_host box_state 4)) 10 ''src'' =
      Some (js ''data:text/html;charset=utf-8,'' @ box_encoded) \<and>
      percent_decode box_encoded = Some box_html"
    by (simp add: box_html_encoded box_page(1))
  from iframify_sets_data_uri [OF box_page(3) box_html_well_formed]
  have "get_property sample_host (snd (iframify sample_host box_state 4)) 10 ''src'' =
      Some (js ''data:text/html;charset=utf-8,'' @ box_encoded)"
    by (simp add: box_html_encoded box_page(1))
  with legacy box_page(3,4) box_html_well_formed box_html_encoded show ?thesis by blast
qed

text \<open>
  C6 as stated covers every node. For a node whose markup holds a surrogate without its
  partner \<open>encodeURI\<close> throws: the call ends in a \<open>URIError\<close>, \<open>src\<close> is not set and the
  node keeps its parent.
\<close>

theorem iframify_unpaired_surrogate_counterexample:
  "fst (iframify surrogate_host box_state 4) = Inl URIError \<and>
   get_property surrogate_host (snd (iframify surrogate_host box_state 4)) 10 ''src'' = None \<and>
   parentNode (snd (iframify surrogate_host box_state 4)) 4 = Some 2"
proof -
  from iframify_encode_fails [OF surrogate_page]
  have run: "iframify surrogate_host box_state 4 =
      (Inl URIError,
       set_property surrogate_host (snd (createElement box_state)) 10 ''srcdoc'' surrogate_html)"
    by (simp add: box_page(1))
  have "get_property surrogate_host (snd (createElement box_state)) 10 ''src'' = None"
    by (simp add: get_property_def reflects_def createElement_def Let_def box_page(1))
  then have src:
    "get_property surrogate_host (snd (iframify surrogate_host box_state 4)) 10 ''src'' = None"
    by (simp add: run get_property_set_property)
  have "parentNode (snd (iframify surrogate_host box_state 4)) 4 = Some 2"
    by (simp add: run parentNode_def forest_createElement parent_in_append
        box_page(2) [unfolded parentNode_def])
  with run src show ?thesis by simp
qed

subsection \<open>The deferred measurement\<close>

text \<open>
  C7. On a host with \<open>srcdoc\<close>, a call that completes schedules exactly one timer, with
  the delay 500. Its function reads the root element and the body of the frame's document
  and sets the \<open>height\<close> of the frame to the maximum of \<open>body.scrollHeight\<close>,
  \<open>body.offsetHeight\<close>, \<open>html.clientHeight\<close>, \<open>html.scrollHeight\<close> and
  \<open>html.offsetHeight\<close>, followed by \<open>px\<close>. The function schedules nothing, a timer
  that has run is gone, and no call, however it ends, schedules more than this one timer:
  there is no second measurement.
\<close>

theorem iframify_schedules_one_measurement:
  assumes "srcdoc_supported h"
    and "getIframeContentForNode h st node = Inr html"
    and "encodeURI html = Inr encoded"
    and "parentNode st node = Some parent"
  shows "fst (iframify h st node) = Inr () \<and>
         timers (snd (iframify h st node)) = timers st @ [(MeasureHeight (fresh_ref st), 500)] \<and>
         (\<forall>(h' :: host) (s :: state) doc b root.
            contentWindow_document h' (fresh_ref st) = Inr doc \<and> body doc = Some b \<and>
            documentElement doc = Some root \<longrightarrow>
            fst (run_callback h' s (MeasureHeight (fresh_ref st))) = Inr () \<and>
            get_property h' (snd (run_callback h' s (MeasureHeight (fresh_ref st))))
              (fresh_ref st) ''height'' =
              Some (number_to_string
                      (Max {scrollHeight b, offsetHeight b,
                            clientHeight root, scrollHeight root, offsetHeight root}) @
                    js ''px'')) \<and>
         (\<forall>(h' :: host) (s :: state).
            timers (snd (run_callback h' s (MeasureHeight (fresh_ref st)))) = timers s) \<and>
         (\<forall>(h' :: host) (s :: state). timers (snd (run_timer h' s)) = tl (timers s)) \<and>
         (\<forall>(h' :: host) (s :: state) n.
            timers (snd (iframify h' s n)) = timers s \<or>
            timers (snd (iframify h' s n)) = timers s @ [(MeasureHeight (fresh_ref s), 500)])"
proof (intro conjI allI impI)
  show "fst (iframify h st node) = Inr ()"
    by (simp add: iframify_run [OF assms(2,3,4)])
  show "timers (snd (iframify h st node)) = timers st @ [(MeasureHeight (fresh_ref st), 500)]"
    using assms(2,3,4) by (rule iframify_timers)
next
  fix h' :: host and s :: state and doc b root
  assume answers: "contentWindow_document h' (fresh_ref st) = Inr doc \<and> body doc = Some b \<and>
      documentElement doc = Some root"
  then have "contentWindow_document h' (fresh_ref st) = Inr doc"
    and "body doc = Some b" and "documentElement doc = Some root"
    by simp_all
  then have run: "run_callback h' s (MeasureHeight (fresh_ref st)) =
      (Inr (),
       set_property h' s (fresh_ref st) ''height''
         (number_to_string
            (Math_max (scrollHeight b) (offsetHeight b)
               (clientHeight root) (scrollHeight root) (offsetHeight root)) @
          js ''px''))"
    by (rule run_callback_height)
  then show "fst (run_callback h' s (MeasureHeight (fresh_ref st))) = Inr ()"
    by simp
  from run show "get_property h' (snd (run_callback h' s (MeasureHeight (fresh_ref st))))
      (fresh_ref st) ''height'' =
      Some (number_to_string
              (Max {scrollHeight b, offsetHeight b,
                    clientHeight root, scrollHeight root, offsetHeight root}) @
            js ''px'')"
    by (simp only: snd_conv get_property_set_property Math_max_Max simp_thms if_True)
next
  fix h' :: host and s :: state
  show "timers (snd (run_callback h' s (MeasureHeight (fresh_ref st)))) = timers s"
    by (rule timers_run_callback)
  show "timers (snd (run_timer h' s)) = tl (timers s)"
    by (rule timers_run_timer)
next
  fix h' :: host and s :: state and n
  show "timers (snd (iframify h' s n)) = timers s \<or>
      timers (snd (iframify h' s n)) = timers s @ [(MeasureHeight (fresh_ref s), 500)]"
    by (rule iframify_timers_cases)
qed

theorem iframify_schedules_one_measurement_witness:
  "srcdoc_supported sample_host \<and>
   getIframeContentForNode sample_host box_state 4 = Inr box_html \<and>
   encodeURI box_html = Inr box_encoded \<and>
   parentNode box_state 4 = Some 2 \<and>
   timers (snd (iframify sample_host box_state 4)) = [(MeasureHeight 10, 500)] \<and>
   get_property (sample_host)
     (snd (run_callback (sample_host)
        (snd (iframify sample_host box_state 4)) (MeasureHeight 10))) 10 ''height'' =
     Some (js ''150px'') \<and>
   timers (snd (run_timer (sample_host)
     (snd (iframify sample_host box_state 4)))) = []"
proof -
  let ?h' = "sample_host"
  let ?s = "snd (iframify sample_host box_state 4)"
  have supported: "srcdoc_supported sample_host"
    by (simp add: sample_host_def)
  note run = iframify_schedules_one_measurement
    [OF supported box_page(3) box_html_encoded box_page(2), unfolded box_page(1)]
  have "timers box_state = []"
    by (simp add: box_state_def sample_state_def)
  with run have timers: "timers ?s = [(MeasureHeight 10, 500)]"
    by simp
  have answers: "contentWindow_document ?h' 10 =
      Inr \<lparr>documentElement = Some \<lparr>scrollHeight = 120, offsetHeight = 118, clientHeight = 150\<rparr>,
           body = Some \<lparr>scrollHeight = 96, offsetHeight = 100, clientHeight = 100\<rparr>\<rparr>"
    by (simp add: sample_host_def rendered_def)
  from run answers
  have "get_property ?h' (snd (run_callback ?h' ?s (MeasureHeight 10))) 10 ''height'' =
      Some (number_to_string (Max {96, 100, 150, 120, 118}) @ js ''px'')"
    by fastforce
  then have height:
    "get_property ?h' (snd (run_callback ?h' ?s (MeasureHeight 10))) 10 ''height'' =
      Some (js ''150px'')"
    unfolding rendered_height .
  from run have "timers (snd (run_timer ?h' ?s)) = tl (timers ?s)"
    by blast
  with timers have "timers (snd (run_timer ?h' ?s)) = []" by simp
  with supported box_page(2,3) box_html_encoded timers height show ?thesis by blast
qed

text \<open>
  C8 does not hold of the script. The test \<open>'srcdoc' in iframe\<close> comes after the
  assignment \<open>iframe.srcdoc = html\<close>; on a host without \<open>srcdoc\<close> the assignment creates
  the property on the object, the test holds, and the measurement is scheduled. When the
  timer runs and the host lets the frame's document be read, the height is set.
\<close>

theorem iframify_legacy_host_schedules:
  "srcdoc_supported legacy_host = False \<and>
   has_property legacy_host (snd (iframify legacy_host box_state 4)) 10 ''srcdoc'' \<and>
   timers (snd (iframify legacy_host box_state 4)) = [(MeasureHeight 10, 500)] \<and>
   get_property (legacy_host)
     (snd (iframify legacy_host box_state 4)) 10 ''height'' = None \<and>
   get_property (legacy_host)
     (snd (run_timer (legacy_host)
        (snd (iframify legacy_host box_state 4)))) 10 ''height'' =
     Some (js ''150px'')"
proof -
  let ?h' = "legacy_host"
  let ?s = "snd (iframify legacy_host box_state 4)"
  note run = iframify_run [OF box_page(4) box_html_encoded box_page(2), unfolded box_page(1)]
  have legacy: "srcdoc_supported legacy_host = False"
    by (simp add: legacy_host_def)
  have check: "has_property legacy_host ?s 10 ''srcdoc''"
    by (simp add: run has_property_set_property has_property_kept)
  have "timers box_state = []"
    by (simp add: box_state_def sample_state_def)
  with iframify_timers [OF box_page(4) box_html_encoded box_page(2)]
  have timers: "timers ?s = [(MeasureHeight 10, 500)]"
    by (simp add: box_page(1))
  have "get_property legacy_host (snd (createElement box_state)) 10 ''height'' = None"
    by (simp add: get_property_def reflects_def createElement_def Let_def box_page(1))
  then have before: "get_property ?h' ?s 10 ''height'' = None"
    by (simp add: run get_property_set_property)
  have "run_timer ?h' ?s = run_callback ?h' (?s\<lparr>timers := []\<rparr>) (MeasureHeight 10)"
    by (simp add: run_timer_def timers)
  also have "\<dots> = (Inr (), set_property ?h' (?s\<lparr>timers := []\<rparr>) 10 ''height''
      (number_to_string (Math_max 96 100 150 120 118) @ js ''px''))"
    by (simp add: legacy_host_def sample_host_def rendered_def)
  finally have "get_property ?h' (snd (run_timer ?h' ?s)) 10 ''height'' =
      Some (number_to_string (Max {96, 100, 150, 120, 118}) @ js ''px'')"
    by (simp only: snd_conv get_property_set_property Math_max_Max simp_thms if_True)
  then have after: "get_property ?h' (snd (run_timer ?h' ?s)) 10 ''height'' = Some (js ''150px'')"
    unfolding rendered_height .
  from legacy check timers before after show ?thesis by blast
qed

section \<open>Replacing the node\<close>

subsection \<open>Trees with distinct references\<close>

lemma refs_unfold: "refs n = ident n # forest_refs (childNodes n)"
  by (cases n) (simp add: forest_refs_def)

lemma forest_refs_Cons: "forest_refs (n # ns) = refs n @ forest_refs ns"
  by (simp add: forest_refs_def)

lemma forest_refs_Nil: "forest_refs [] = []"
  by (simp add: forest_refs_def)

lemma forest_refs_append: "forest_refs (ns @ ms) = forest_refs ns @ forest_refs ms"
  by (simp add: forest_refs_def)

lemma refs_in_forest: "n \<in> set ns \<Longrightarrow> set (refs n) \<subseteq> set (forest_refs ns)"
  by (auto simp add: forest_refs_def)

lemma find_node_root: "find_node (ident n) n = Some n"
  by (cases n) simp

lemma find_node_none: "x \<notin> set (refs n) \<Longrightarrow> find_node x n = None"
  using find_in_refs(1) [of x n] by (cases "find_node x n") auto

lemma find_in_none: "x \<notin> set (forest_refs ns) \<Longrightarrow> find_in x ns = None"
  using find_in_refs(2) [of x ns] by (cases "find_in x ns") auto

lemma find_sub:
  "find_node x n = Some m \<Longrightarrow> set (refs m) \<subseteq> set (refs n)"
  "find_in x ns = Some m \<Longrightarrow> set (refs m) \<subseteq> set (forest_refs ns)"
proof (induction x n and x ns rule: find_node_find_in.induct)
  case (1 x r t cs)
  then show ?case
    by (auto simp add: forest_refs_def split: if_splits)
next
  case (2 x)
  then show ?case by simp
next
  case (3 x n ns)
  then show ?case
    by (auto simp add: forest_refs_Cons split: option.splits)
qed

lemma find_distinct:
  "find_node x n = Some m \<Longrightarrow> distinct (refs n) \<Longrightarrow> distinct (refs m)"
  "find_in x ns = Some m \<Longrightarrow> distinct (forest_refs ns) \<Longrightarrow> distinct (refs m)"
proof (induction x n and x ns rule: find_node_find_in.induct)
  case (1 x r t cs)
  then show ?case
    by (auto simp add: forest_refs_def split: if_splits)
next
  case (2 x)
  then show ?case by simp
next
  case (3 x n ns)
  then show ?case
    by (auto simp add: forest_refs_Cons split: option.splits)
qed

lemma parent_below:
  "parent_node x n = Some p \<Longrightarrow> x \<in> set (forest_refs (childNodes n)) \<and> p \<in> set (refs n)"
  "parent_in x ns = Some p \<Longrightarrow> x \<in> set (forest_refs ns) \<and> p \<in> set (forest_refs ns)"
proof (induction x n and x ns rule: parent_node_parent_in.induct)
  case (1 x r t cs)
  show ?case
  proof (cases "x \<in> set (map ident cs)")
    case True
    then obtain c where "c \<in> set cs" "ident c = x" by auto
    with ident_in_refs [of c] have "x \<in> set (forest_refs cs)"
      by (auto simp add: forest_refs_def)
    with True "1.prems" show ?thesis by simp
  next
    case False
    with 1 show ?thesis by (auto simp add: forest_refs_def)
  qed
next
  case (2 x)
  then show ?case by simp
next
  case (3 x n ns)
  show ?case
  proof (cases "parent_node x n")
    case None
    with 3 show ?thesis by (auto simp add: forest_refs_Cons)
  next
    case (Some q)
    with "3.prems" have "q = p" by simp
    with Some "3.IH"(1) have "x \<in> set (forest_refs (childNodes n)) \<and> p \<in> set (refs n)"
      by simp
    then show ?thesis
      by (auto simp add: forest_refs_Cons refs_unfold [of n])
  qed
qed

lemma parent_node_none: "x \<notin> set (refs n) \<Longrightarrow> parent_node x n = None"
  using parent_in_refs(1) [of x n] by (cases "parent_node x n") auto

lemma parent_in_none: "x \<notin> set (forest_refs ns) \<Longrightarrow> parent_in x ns = None"
  using parent_in_refs(2) [of x ns] by (cases "parent_in x ns") auto

lemma ident_replace_in [simp]: "ident (replace_in p new old t) = ident t"
  by (cases t) simp

lemma replace_in_id:
  "p \<notin> set (refs t) \<Longrightarrow> replace_in p new old t = t"
proof (induction p new old t rule: replace_in.induct)
  case (1 p new old r t cs)
  then have "r \<noteq> p" by auto
  moreover have "map (replace_in p new old) cs = cs"
  proof (rule map_idI)
    fix c assume c: "c \<in> set cs"
    with "1.prems" have "p \<notin> set (refs c)" by auto
    with "1.IH" [OF \<open>r \<noteq> p\<close> c] show "replace_in p new old c = c" .
  qed
  ultimately show ?case by simp
qed

lemma replace_in_forest_id:
  "p \<notin> set (forest_refs ts) \<Longrightarrow> map (replace_in p new old) ts = ts"
  by (rule map_idI) (auto simp add: forest_refs_def intro: replace_in_id)

lemma find_in_child:
  "distinct (forest_refs cs) \<Longrightarrow> c \<in> set cs \<Longrightarrow> find_in (ident c) cs = Some c"
proof (induction cs)
  case Nil
  then show ?case by simp
next
  case (Cons a cs)
  show ?case
  proof (cases "c = a")
    case True
    then show ?thesis by (simp add: find_node_root)
  next
    case False
    with Cons.prems have c: "c \<in> set cs" by simp
    with ident_in_refs [of c] have "ident c \<in> set (forest_refs cs)"
      by (auto simp add: forest_refs_def)
    with Cons.prems(1) have "ident c \<notin> set (refs a)"
      by (auto simp add: forest_refs_Cons)
    then have "find_node (ident c) a = None" by (rule find_node_none)
    with Cons c show ?thesis by (simp add: forest_refs_Cons)
  qed
qed

lemma distinct_idents:
  "distinct (forest_refs cs) \<Longrightarrow> distinct (map ident cs)"
proof (induction cs)
  case Nil
  then show ?case by simp
next
  case (Cons a cs)
  have "ident a \<notin> ident ` set cs"
  proof
    assume "ident a \<in> ident ` set cs"
    then obtain c where c: "c \<in> set cs" "ident c = ident a" by auto
    with ident_in_refs [of c] have "ident a \<in> set (forest_refs cs)"
      by (auto simp add: forest_refs_def)
    with Cons.prems ident_in_refs [of a] show False
      by (auto simp add: forest_refs_Cons)
  qed
  with Cons show ?case by (simp add: forest_refs_Cons)
qed


lemma parent_found:
  "parent_node x n = Some p \<Longrightarrow> distinct (refs n) \<Longrightarrow>
     \<exists>P. find_node p n = Some P \<and> x \<in> ident ` set (childNodes P)"
  "parent_in x ns = Some p \<Longrightarrow> distinct (forest_refs ns) \<Longrightarrow>
     \<exists>P. find_in p ns = Some P \<and> x \<in> ident ` set (childNodes P)"
proof (induction x n and x ns rule: parent_node_parent_in.induct)
  case (1 x r t cs)
  show ?case
  proof (cases "x \<in> set (map ident cs)")
    case True
    with "1.prems"(1) have "p = r" by simp
    with True show ?thesis by simp
  next
    case False
    with "1.prems"(1) have up: "parent_in x cs = Some p" by simp
    from "1.prems"(2) have distinct: "distinct (forest_refs cs)" and r: "r \<notin> set (forest_refs cs)"
      by (simp_all add: forest_refs_def)
    from "1.IH" [OF False up distinct] obtain P
      where P: "find_in p cs = Some P" "x \<in> ident ` set (childNodes P)" by blast
    from parent_below(2) [OF up] r have "r \<noteq> p" by auto
    with P show ?thesis by simp
  qed
next
  case (2 x)
  then show ?case by simp
next
  case (3 x n ns)
  from "3.prems"(2) have dn: "distinct (refs n)" and dns: "distinct (forest_refs ns)"
    and disjoint: "set (refs n) \<inter> set (forest_refs ns) = {}"
    by (simp_all add: forest_refs_Cons)
  show ?case
  proof (cases "parent_node x n")
    case (Some q)
    with "3.prems"(1) have "parent_node x n = Some p" by simp
    from "3.IH"(1) [OF this dn] show ?thesis by auto
  next
    case None
    with "3.prems"(1) have up: "parent_in x ns = Some p" by simp
    from "3.IH"(2) [OF None up dns] obtain P
      where P: "find_in p ns = Some P" "x \<in> ident ` set (childNodes P)" by blast
    from parent_below(2) [OF up] disjoint have "p \<notin> set (refs n)" by auto
    then have "find_node p n = None" by (rule find_node_none)
    with P show ?thesis by simp
  qed
qed

lemma find_parent_replaced:
  "find_node p (replace_in p new old n) =
     map_option
       (\<lambda>P. Node (ident P) (nodeType P) (map (\<lambda>c. if ident c = old then new else c) (childNodes P)))
       (find_node p n)"
  "find_in p (map (replace_in p new old) ns) =
     map_option
       (\<lambda>P. Node (ident P) (nodeType P) (map (\<lambda>c. if ident c = old then new else c) (childNodes P)))
       (find_in p ns)"
proof (induction p n and p ns rule: find_node_find_in.induct)
  case (1 x r t cs)
  then show ?case by simp
next
  case (2 x)
  show ?case by simp
next
  case (3 x n ns)
  then show ?case by (simp split: option.splits)
qed

lemma parent_of_new:
  "parent_node old n = Some p \<Longrightarrow> distinct (refs n) \<Longrightarrow> ident new \<notin> set (refs n) \<Longrightarrow>
     parent_node (ident new) (replace_in p new old n) = Some p"
  "parent_in old ns = Some p \<Longrightarrow> distinct (forest_refs ns) \<Longrightarrow>
     ident new \<notin> set (forest_refs ns) \<Longrightarrow>
     parent_in (ident new) (map (replace_in p new old) ns) = Some p"
proof (induction old n and old ns rule: parent_node_parent_in.induct)
  case (1 x r t cs)
  show ?case
  proof (cases "x \<in> set (map ident cs)")
    case True
    with "1.prems"(1) have "p = r" by simp
    moreover from True
    have "ident new \<in> set (map ident (map (\<lambda>c. if ident c = x then new else c) cs))"
      by (auto simp add: image_iff)
    ultimately show ?thesis by simp
  next
    case False
    with "1.prems"(1) have up: "parent_in x cs = Some p" by simp
    from "1.prems"(2) have distinct: "distinct (forest_refs cs)" and r: "r \<notin> set (forest_refs cs)"
      by (simp_all add: forest_refs_def)
    from "1.prems"(3) have fresh: "ident new \<notin> set (forest_refs cs)"
      by (simp add: forest_refs_def)
    from parent_below(2) [OF up] r have "r \<noteq> p" by auto
    moreover have "ident new \<notin> set (map ident (map (replace_in p new x) cs))"
    proof
      assume "ident new \<in> set (map ident (map (replace_in p new x) cs))"
      then obtain c where "c \<in> set cs" "ident c = ident new" by auto
      with ident_in_refs [of c] fresh show False
        by (auto simp add: forest_refs_def)
    qed
    ultimately show ?thesis
      using "1.IH" [OF False up distinct fresh] by simp
  qed
next
  case (2 x)
  then show ?case by simp
next
  case (3 x n ns)
  from "3.prems"(2) have dn: "distinct (refs n)" and dns: "distinct (forest_refs ns)"
    and disjoint: "set (refs n) \<inter> set (forest_refs ns) = {}"
    by (simp_all add: forest_refs_Cons)
  from "3.prems"(3) have fn: "ident new \<notin> set (refs n)"
    and fns: "ident new \<notin> set (forest_refs ns)"
    by (simp_all add: forest_refs_Cons)
  show ?case
  proof (cases "parent_node x n")
    case (Some q)
    with "3.prems"(1) have "parent_node x n = Some p" by simp
    from "3.IH"(1) [OF this dn fn] show ?thesis by simp
  next
    case None
    with "3.prems"(1) have up: "parent_in x ns = Some p" by simp
    from parent_below(2) [OF up] disjoint have "p \<notin> set (refs n)" by auto
    then have "replace_in p new x n = n" by (rule replace_in_id)
    moreover from fn have "parent_node (ident new) n = None" by (rule parent_node_none)
    ultimately show ?thesis
      using "3.IH"(2) [OF None up dns fns] by simp
  qed
qed


lemma children_disjoint:
  "distinct (forest_refs cs) \<Longrightarrow> c \<in> set cs \<Longrightarrow> c' \<in> set cs \<Longrightarrow> ident c \<noteq> ident c' \<Longrightarrow>
     set (refs c) \<inter> set (refs c') = {}"
proof (induction cs)
  case Nil
  then show ?case by simp
next
  case (Cons a cs)
  from Cons.prems(1) have rest: "distinct (forest_refs cs)"
    and disjoint: "set (refs a) \<inter> set (forest_refs cs) = {}"
    by (simp_all add: forest_refs_Cons)
  consider "c = a" "c' \<in> set cs" | "c' = a" "c \<in> set cs" | "c \<in> set cs" "c' \<in> set cs"
    using Cons.prems(2,3,4) by auto
  then show ?case
  proof cases
    case 1
    with refs_in_forest [of c' cs] disjoint show ?thesis by auto
  next
    case 2
    with refs_in_forest [of c cs] disjoint show ?thesis by auto
  next
    case 3
    with Cons.IH [OF rest] Cons.prems(4) show ?thesis by simp
  qed
qed

lemma replaced_disjoint:
  "parent_node old n = Some p \<Longrightarrow> find_node old n = Some oldn \<Longrightarrow> distinct (refs n) \<Longrightarrow>
     set (refs new) \<inter> set (refs oldn) = {} \<Longrightarrow>
     set (refs (replace_in p new old n)) \<inter> set (refs oldn) = {}"
  "parent_in old ns = Some p \<Longrightarrow> find_in old ns = Some oldn \<Longrightarrow> distinct (forest_refs ns) \<Longrightarrow>
     set (refs new) \<inter> set (refs oldn) = {} \<Longrightarrow>
     set (forest_refs (map (replace_in p new old) ns)) \<inter> set (refs oldn) = {}"
proof (induction old n and old ns rule: parent_node_parent_in.induct)
  case (1 x r t cs)
  from "1.prems"(3) have distinct: "distinct (forest_refs cs)" and r: "r \<notin> set (forest_refs cs)"
    by (simp_all add: forest_refs_def)
  from parent_below(1) [OF "1.prems"(1)] have x: "x \<in> set (forest_refs cs)" by simp
  with r have "r \<noteq> x" by auto
  with "1.prems"(2) have found: "find_in x cs = Some oldn" by simp
  from find_sub(2) [OF found] r have r_old: "r \<notin> set (refs oldn)" by auto
  show ?case
  proof (cases "x \<in> set (map ident cs)")
    case True
    then obtain c0 where c0: "c0 \<in> set cs" "ident c0 = x" by auto
    from find_in_child [OF distinct c0(1)] c0(2) found have oldn: "oldn = c0" by simp
    from True "1.prems"(1) have "p = r" by simp
    then have "replace_in p new x (Node r t cs) =
        Node r t (map (\<lambda>c. if ident c = x then new else c) cs)"
      by simp
    moreover have "set (refs (if ident c = x then new else c)) \<inter> set (refs oldn) = {}"
      if "c \<in> set cs" for c
    proof (cases "ident c = x")
      case True
      with "1.prems"(4) show ?thesis by simp
    next
      case False
      with children_disjoint [OF distinct that c0(1)] c0(2) oldn show ?thesis by simp
    qed
    ultimately show ?thesis
      using r_old by (auto simp add: forest_refs_def)
  next
    case False
    with "1.prems"(1) have up: "parent_in x cs = Some p" by simp
    from parent_below(2) [OF up] r have "r \<noteq> p" by auto
    then have "replace_in p new x (Node r t cs) = Node r t (map (replace_in p new x) cs)"
      by simp
    with "1.IH" [OF False up found distinct "1.prems"(4)] r_old show ?thesis
      by (auto simp add: forest_refs_def)
  qed
next
  case (2 x)
  then show ?case by simp
next
  case (3 x n ns)
  from "3.prems"(3) have dn: "distinct (refs n)" and dns: "distinct (forest_refs ns)"
    and disjoint: "set (refs n) \<inter> set (forest_refs ns) = {}"
    by (simp_all add: forest_refs_Cons)
  show ?case
  proof (cases "parent_node x n")
    case (Some q)
    with "3.prems"(1) have up: "parent_node x n = Some p" by simp
    from parent_in_refs(1) [OF up] find_in_member(1) obtain m
      where m: "find_node x n = Some m" by blast
    with "3.prems"(2) have found: "find_node x n = Some oldn" by simp
    from parent_below(1) [OF up] disjoint have "p \<notin> set (forest_refs ns)" by auto
    then have "map (replace_in p new x) ns = ns" by (rule replace_in_forest_id)
    moreover from find_sub(1) [OF found] disjoint
    have "set (forest_refs ns) \<inter> set (refs oldn) = {}" by auto
    ultimately show ?thesis
      using "3.IH"(1) [OF up found dn "3.prems"(4)]
      by (auto simp add: forest_refs_Cons)
  next
    case None
    with "3.prems"(1) have up: "parent_in x ns = Some p" by simp
    from parent_below(2) [OF up] disjoint
    have "x \<notin> set (refs n)" and "p \<notin> set (refs n)" by auto
    then have "find_node x n = None" and same: "replace_in p new x n = n"
      by (simp_all add: find_node_none replace_in_id)
    with "3.prems"(2) have found: "find_in x ns = Some oldn" by simp
    from find_sub(2) [OF found] disjoint have "set (refs n) \<inter> set (refs oldn) = {}"
      by auto
    with "3.IH"(2) [OF None up found dns "3.prems"(4)] same show ?thesis
      by (auto simp add: forest_refs_Cons)
  qed
qed

lemma before_in_swapped:
  "new \<notin> set cs \<Longrightarrow>
     before_in new (map (\<lambda>c. if c = old then new else c) cs) = before_in old cs"
  by (induction old cs rule: before_in.induct) auto

lemma after_in_swapped:
  "new \<notin> set cs \<Longrightarrow> distinct cs \<Longrightarrow>
     after_in new (map (\<lambda>c. if c = old then new else c) cs) = after_in old cs"
  by (induction old cs rule: after_in.induct) auto


lemma forest_setTimeout [simp]: "forest (setTimeout st cb d) = forest st"
  by (simp add: setTimeout_def forest_def)

lemma forest_after_iframify:
  assumes "getIframeContentForNode h st node = Inr html"
    and "encodeURI html = Inr encoded"
    and "parentNode st node = Some parent"
    and "find_in node (forest st) = Some oldn"
  shows "forest (snd (iframify h st node)) =
           map (replace_in parent (Node (fresh_ref st) ELEMENT_NODE []) node) (forest st) @ [oldn]"
proof -
  let ?st3 = "set_property h
      (set_property h (snd (createElement st)) (fresh_ref st) ''srcdoc'' html)
      (fresh_ref st) ''src'' (js ''data:text/html;charset=utf-8,'' @ encoded)"
  have "forest ?st3 = forest st @ [Node (fresh_ref st) ELEMENT_NODE []]"
    by (simp add: forest_createElement)
  from replaceChild_created [OF assms(4) this, of parent]
  have "forest (replaceChild ?st3 parent (fresh_ref st) node) =
      map (replace_in parent (Node (fresh_ref st) ELEMENT_NODE []) node) (forest st) @ [oldn]"
    by (simp add: forest_def)
  then show ?thesis
    by (simp add: iframify_run [OF assms(1,2,3)])
qed


subsection \<open>The swap\<close>

text \<open>
  C5. In a state where every node is one object (no reference occurs twice), a call that
  completes on a node with a parent leaves the node without a parent, with its subtree
  as it was and disjoint from the document; the frame has the former parent as its
  parent; the children of that parent are the former ones with the frame in the place of
  the node, so that all other children are unchanged and the frame has the previous and
  the next sibling that the node had.
\<close>

theorem iframify_swaps_node:
  assumes "distinct (forest_refs (forest st))"
    and "getIframeContentForNode h st node = Inr html"
    and "encodeURI html = Inr encoded"
    and "parentNode st node = Some parent"
  shows "\<exists>oldn.
           find_in node (forest st) = Some oldn \<and>
           find_in node (forest (snd (iframify h st node))) = Some oldn \<and>
           parentNode (snd (iframify h st node)) node = None \<and>
           set (refs oldn) \<inter> set (refs (document (snd (iframify h st node)))) = {} \<and>
           parentNode (snd (iframify h st node)) (fresh_ref st) = Some parent \<and>
           node \<in> set (children_of st parent) \<and>
           fresh_ref st \<notin> set (children_of st parent) \<and>
           children_of (snd (iframify h st node)) parent =
             map (\<lambda>c. if c = node then fresh_ref st else c) (children_of st parent) \<and>
           previousSibling (snd (iframify h st node)) (fresh_ref st) = previousSibling st node \<and>
           nextSibling (snd (iframify h st node)) (fresh_ref st) = nextSibling st node"
proof -
  let ?F = "forest st" and ?iframe = "fresh_ref st"
  let ?new = "Node ?iframe ELEMENT_NODE []"
  let ?R = "replace_in parent ?new node"
  let ?st' = "snd (iframify h st node)"
  let ?swap = "\<lambda>c. if c = node then ?iframe else c"
  from assms(4) have up: "parent_in node ?F = Some parent"
    by (simp add: parentNode_def)
  from parentNode_found [OF assms(4)] obtain oldn
    where found: "find_in node ?F = Some oldn" by blast
  have forest': "forest ?st' = map ?R ?F @ [oldn]"
    using assms(2,3,4) found by (rule forest_after_iframify)
  have fresh: "?iframe \<notin> set (forest_refs ?F)"
    by (rule fresh_ref_fresh)
  have old_ident: "ident oldn = node"
    using found by (rule find_node_ident(2))
  have old_distinct: "distinct (refs oldn)"
    using found assms(1) by (rule find_distinct(2))
  from find_sub(2) [OF found] fresh have "set (refs ?new) \<inter> set (refs oldn) = {}"
    by auto
  with up found assms(1)
  have apart: "set (forest_refs (map ?R ?F)) \<inter> set (refs oldn) = {}"
    by (rule replaced_disjoint(2))
  with ident_in_refs [of oldn] old_ident
  have gone: "node \<notin> set (forest_refs (map ?R ?F))" by auto
  \<comment> \<open>the node and its subtree\<close>
  have kept: "find_in node (forest ?st') = Some oldn"
    using find_node_root [of oldn]
    by (simp add: forest' find_in_append find_in_none [OF gone] old_ident)
  have "parent_node node oldn = None"
  proof (cases "parent_node node oldn")
    case (Some q)
    from parent_below(1) [OF this] old_distinct old_ident show ?thesis
      by (simp add: refs_unfold [of oldn])
  qed simp
  then have orphan: "parentNode ?st' node = None"
    by (simp add: parentNode_def forest' parent_in_append parent_in_none [OF gone])
  have "document ?st' = ?R (document st)"
    using forest' by (simp add: forest_def)
  then have "set (refs (document ?st')) \<subseteq> set (forest_refs (map ?R ?F))"
    by (simp add: forest_def forest_refs_Cons)
  with apart have detached: "set (refs oldn) \<inter> set (refs (document ?st')) = {}"
    by auto
  \<comment> \<open>the frame\<close>
  have "parent_in (ident ?new) (map ?R ?F) = Some parent"
    using up assms(1) fresh by (intro parent_of_new(2)) simp_all
  then have adopted: "parentNode ?st' ?iframe = Some parent"
    by (simp add: parentNode_def forest' parent_in_append)
  \<comment> \<open>the children of the parent\<close>
  from parent_found(2) [OF up assms(1)] obtain P
    where P: "find_in parent ?F = Some P" "node \<in> ident ` set (childNodes P)" by blast
  then have children: "children_of st parent = map ident (childNodes P)"
    by (simp add: children_of_def)
  with P(2) have member: "node \<in> set (children_of st parent)" by simp
  have "set (forest_refs (childNodes P)) \<subseteq> set (forest_refs ?F)"
    using find_sub(2) [OF P(1)] by (auto simp add: refs_unfold [of P])
  moreover have "set (map ident (childNodes P)) \<subseteq> set (forest_refs (childNodes P))"
    using ident_in_refs by (auto simp add: forest_refs_def)
  ultimately have absent: "?iframe \<notin> set (children_of st parent)"
    using fresh children by auto
  have "distinct (refs P)"
    using P(1) assms(1) by (rule find_distinct(2))
  then have "distinct (forest_refs (childNodes P))"
    by (simp add: refs_unfold [of P])
  then have distinct: "distinct (children_of st parent)"
    unfolding children by (rule distinct_idents)
  have "find_in parent (forest ?st') =
      Some (Node (ident P) (nodeType P)
        (map (\<lambda>c. if ident c = node then ?new else c) (childNodes P)))"
    by (simp add: forest' find_in_append find_parent_replaced(2) P(1))
  then have "children_of ?st' parent =
      map ident (map (\<lambda>c. if ident c = node then ?new else c) (childNodes P))"
    by (simp add: children_of_def)
  also have "\<dots> = map ?swap (map ident (childNodes P))"
    by (simp add: comp_def if_distrib cong: if_cong)
  finally have swapped: "children_of ?st' parent = map ?swap (children_of st parent)"
    by (simp add: children)
  have previous: "previousSibling ?st' ?iframe = previousSibling st node"
    by (simp add: previousSibling_def adopted assms(4) swapped before_in_swapped [OF absent])
  have "next": "nextSibling ?st' ?iframe = nextSibling st node"
    by (simp add: nextSibling_def adopted assms(4) swapped after_in_swapped [OF absent distinct])
  from found kept orphan detached adopted member absent swapped previous "next"
  show ?thesis by blast
qed

theorem iframify_swaps_node_witness:
  "distinct (forest_refs (forest box_state)) \<and>
   getIframeContentForNode sample_host box_state 4 = Inr box_html \<and>
   encodeURI box_html = Inr box_encoded \<and>
   parentNode box_state 4 = Some 2 \<and>
   find_in 4 (forest (snd (iframify sample_host box_state 4))) =
     Some (Node 4 ELEMENT_NODE [Node 5 ELEMENT_NODE [Node 6 TEXT_NODE []]]) \<and>
   parentNode (snd (iframify sample_host box_state 4)) 4 = None \<and>
   set [4, 5, 6] \<inter> set (refs (document (snd (iframify sample_host box_state 4)))) = {} \<and>
   parentNode (snd (iframify sample_host box_state 4)) 10 = Some 2 \<and>
   children_of box_state 2 = [3, 4, 7, 9] \<and>
   children_of (snd (iframify sample_host box_state 4)) 2 = [3, 10, 7, 9] \<and>
   previousSibling (snd (iframify sample_host box_state 4)) 10 = Some 3 \<and>
   nextSibling (snd (iframify sample_host box_state 4)) 10 = Some 7"
proof -
  let ?st' = "snd (iframify sample_host box_state 4)"
  let ?div = "Node 4 ELEMENT_NODE [Node 5 ELEMENT_NODE [Node 6 TEXT_NODE []]]"
  from iframify_swaps_node [OF box_tree(1) box_page(3) box_html_encoded box_page(2)]
  obtain oldn where swap:
    "find_in 4 (forest box_state) = Some oldn"
    "find_in 4 (forest ?st') = Some oldn"
    "parentNode ?st' 4 = None"
    "set (refs oldn) \<inter> set (refs (document ?st')) = {}"
    "parentNode ?st' (fresh_ref box_state) = Some 2"
    "children_of ?st' 2 =
       map (\<lambda>c. if c = 4 then fresh_ref box_state else c) (children_of box_state 2)"
    "previousSibling ?st' (fresh_ref box_state) = previousSibling box_state 4"
    "nextSibling ?st' (fresh_ref box_state) = nextSibling box_state 4"
    by blast
  from swap(1) have oldn: "oldn = ?div" by (simp add: box_tree(2))
  from swap(2) oldn have kept: "find_in 4 (forest ?st') = Some ?div" by simp
  from swap(4) oldn have apart: "set [4, 5, 6] \<inter> set (refs (document ?st')) = {}" by simp
  from swap(5) have adopted: "parentNode ?st' 10 = Some 2" by (simp add: box_page(1))
  from swap(6) have children: "children_of ?st' 2 = [3, 10, 7, 9]"
    by (simp add: box_page(1) box_tree(3))
  from swap(7) have previous: "previousSibling ?st' 10 = Some 3"
    by (simp add: box_page(1) box_tree(4))
  from swap(8) have "next": "nextSibling ?st' 10 = Some 7"
    by (simp add: box_page(1) box_tree(5))
  from box_tree(1,3) box_page(2,3) box_html_encoded kept swap(3) apart adopted children
    previous "next"
  show ?thesis by blast
qed

end
